theory Spec2Isabelle
  imports Complex_Main
begin

section \<open>Python strings and exceptions\<close>

text \<open>
  Python text is modelled as \<open>string\<close>, one \<open>char\<close> per code point, over the code
  points U+0000 to U+00FF (which hold every character the program names: the digits,
  period, minus, comma, parentheses and the non-breaking space U+00A0).
\<close>

datatype exn = ValueError | XMLSyntaxError | OSError

definition code_point :: "char \<Rightarrow> nat" where
  "code_point c = of_char c"

text \<open>\<open>str.isspace\<close> on one character: the white space of \<open>str.strip()\<close>.\<close>

definition is_space :: "char \<Rightarrow> bool" where
  "is_space c =
     (let n = code_point c
      in (9 \<le> n \<and> n \<le> 13) \<or> (28 \<le> n \<and> n \<le> 32) \<or> n = 133 \<or> n = 160)"

text \<open>\<open>s.strip()\<close>: white space removed at both ends.\<close>

definition strip :: "string \<Rightarrow> string" where
  "strip s = rev (dropWhile is_space (rev (dropWhile is_space s)))"

text \<open>\<open>s.replace(old, new)\<close> for a one-character \<open>old\<close>: every occurrence, left to right.\<close>

primrec replace :: "char \<Rightarrow> string \<Rightarrow> string \<Rightarrow> string" where
  "replace old new [] = []"
| "replace old new (c # cs) =
     (if c = old then new @ replace old new cs else c # replace old new cs)"

definition NBSP :: char where
  "NBSP = CHR 0xA0"

text \<open>The character range \<open>0-9\<close> of a regular expression: by code point.\<close>

definition is_digit :: "char \<Rightarrow> bool" where
  "is_digit c = (48 \<le> code_point c \<and> code_point c \<le> 57)"

text \<open>
  \<open>AMOUNT_CLEAN_RE = re.compile(r"[^0-9\.\-]")\<close>: one character that is not a digit, a
  period or a minus sign; \<open>AMOUNT_CLEAN_RE.sub("", s)\<close> deletes every match.
\<close>

definition AMOUNT_CLEAN_RE :: "char \<Rightarrow> bool" where
  "AMOUNT_CLEAN_RE c = (\<not> (is_digit c \<or> c = CHR ''.'' \<or> c = CHR ''-''))"

primrec re_sub_empty :: "(char \<Rightarrow> bool) \<Rightarrow> string \<Rightarrow> string" where
  "re_sub_empty re [] = []"
| "re_sub_empty re (c # cs) =
     (if re c then re_sub_empty re cs else c # re_sub_empty re cs)"

section \<open>Floating-point values\<close>

text \<open>
  A Python \<open>float\<close> is an IEEE 754 double. \<open>Finite q\<close> stands for the double nearest to the
  rational \<open>q\<close> (the value a Python literal of that decimal denotes); the rounding of the
  mantissa is not modelled, the overflow to an infinity is: a decimal of magnitude at
  least \<open>2^1024 - 2^970\<close> rounds to an infinity.
\<close>

datatype pyfloat = Finite rat | PosInf | NegInf | NaN

definition is_finite :: "pyfloat \<Rightarrow> bool" where
  "is_finite x = (case x of Finite q \<Rightarrow> True | _ \<Rightarrow> False)"

definition DBL_OVERFLOW :: rat where
  "DBL_OVERFLOW = 2 ^ 1024 - 2 ^ 970"

definition round_to_double :: "rat \<Rightarrow> pyfloat" where
  "round_to_double q =
     (if DBL_OVERFLOW \<le> q then PosInf
      else if q \<le> - DBL_OVERFLOW then NegInf
      else Finite q)"

definition digit_val :: "char \<Rightarrow> nat" where
  "digit_val c = code_point c - 48"

definition digits_val :: "string \<Rightarrow> nat" where
  "digits_val ds = foldl (\<lambda>a c. 10 * a + digit_val c) 0 ds"

text \<open>
  \<open>float(s)\<close> on the strings that reach it here, those over the alphabet of digits,
  period and minus: an optional minus sign, then digits with at most one period and at
  least one digit; anything else raises \<open>ValueError\<close>.
\<close>

definition decimal_value :: "bool \<Rightarrow> string \<Rightarrow> string \<Rightarrow> rat" where
  "decimal_value neg ip fp =
     (let m = of_nat (digits_val ip) + of_nat (digits_val fp) / 10 ^ length fp
      in if neg then - m else m)"

definition float_of_str :: "string \<Rightarrow> exn + pyfloat" where
  "float_of_str s =
     (let neg = (s \<noteq> [] \<and> hd s = CHR ''-'');
          body = (if neg then tl s else s);
          ip = takeWhile is_digit body;
          rest = dropWhile is_digit body
      in case rest of
           [] \<Rightarrow> if ip = [] then Inl ValueError
                 else Inr (round_to_double (decimal_value neg ip []))
         | c # fp \<Rightarrow>
             if c = CHR ''.'' \<and> list_all is_digit fp \<and> (ip \<noteq> [] \<or> fp \<noteq> [])
             then Inr (round_to_double (decimal_value neg ip fp))
             else Inl ValueError)"

section \<open>The amount normalizer\<close>

text \<open>
  \<open>clean_amount_to_float(s)\<close>: \<open>None\<close> for \<open>None\<close>; otherwise strip, delete non-breaking
  spaces and commas, turn \<open>(\<close> into \<open>-\<close>, delete \<open>)\<close>, delete what \<open>AMOUNT_CLEAN_RE\<close>
  matches; \<open>None\<close> if nothing is left; otherwise \<open>float\<close>, with \<open>ValueError\<close> caught and
  turned into \<open>None\<close>. Any other exception would propagate (\<open>Inl\<close>).
\<close>

definition cleaned :: "string \<Rightarrow> string" where
  "cleaned s =
     (let s1 = strip s;
          s2 = replace NBSP [] s1;
          s3 = replace (CHR '','') [] s2;
          s4 = replace (CHR '')'') [] (replace (CHR ''('') ''-'' s3)
      in re_sub_empty AMOUNT_CLEAN_RE s4)"

definition clean_amount_to_float :: "string option \<Rightarrow> exn + pyfloat option" where
  "clean_amount_to_float s =
     (case s of
        None \<Rightarrow> Inr None
      | Some s0 \<Rightarrow>
          (let s2 = cleaned s0
           in if s2 = [] then Inr None
              else case float_of_str s2 of
                     Inr x \<Rightarrow> Inr (Some x)
                   | Inl ValueError \<Rightarrow> Inr None
                   | Inl e \<Rightarrow> Inl e))"

section \<open>Case mapping and substring search\<close>

text \<open>
  \<open>str.lower()\<close> on the code points U+0000 to U+00FF: the letters A to Z and the
  upper-case letters of U+00C0 to U+00DE (all but the multiplication sign U+00D7) move
  up by 32; every other character is left as it is.
\<close>

definition ASCII_UPPER :: string where
  "ASCII_UPPER = ''ABCDEFGHIJKLMNOPQRSTUVWXYZ''"

definition ASCII_LOWER :: string where
  "ASCII_LOWER = ''abcdefghijklmnopqrstuvwxyz''"

definition LATIN1_UPPER :: string where
  "LATIN1_UPPER =
     [CHR 0xC0, CHR 0xC1, CHR 0xC2, CHR 0xC3, CHR 0xC4, CHR 0xC5, CHR 0xC6, CHR 0xC7,
      CHR 0xC8, CHR 0xC9, CHR 0xCA, CHR 0xCB, CHR 0xCC, CHR 0xCD, CHR 0xCE, CHR 0xCF,
      CHR 0xD0, CHR 0xD1, CHR 0xD2, CHR 0xD3, CHR 0xD4, CHR 0xD5, CHR 0xD6, CHR 0xD8,
      CHR 0xD9, CHR 0xDA, CHR 0xDB, CHR 0xDC, CHR 0xDD, CHR 0xDE]"

definition LATIN1_LOWER :: string where
  "LATIN1_LOWER =
     [CHR 0xE0, CHR 0xE1, CHR 0xE2, CHR 0xE3, CHR 0xE4, CHR 0xE5, CHR 0xE6, CHR 0xE7,
      CHR 0xE8, CHR 0xE9, CHR 0xEA, CHR 0xEB, CHR 0xEC, CHR 0xED, CHR 0xEE, CHR 0xEF,
      CHR 0xF0, CHR 0xF1, CHR 0xF2, CHR 0xF3, CHR 0xF4, CHR 0xF5, CHR 0xF6, CHR 0xF8,
      CHR 0xF9, CHR 0xFA, CHR 0xFB, CHR 0xFC, CHR 0xFD, CHR 0xFE]"

text \<open>
  XPath \<open>translate(s, from, to)\<close> for \<open>from\<close> and \<open>to\<close> of equal length: each
  character of \<open>from\<close> becomes the character of \<open>to\<close> at the same position.
\<close>

definition translate :: "string \<Rightarrow> string \<Rightarrow> string \<Rightarrow> string" where
  "translate s from to =
     map (\<lambda>c. case map_of (zip from to) c of Some d \<Rightarrow> d | None \<Rightarrow> c) s"

definition lower :: "string \<Rightarrow> string" where
  "lower s = translate s (ASCII_UPPER @ LATIN1_UPPER) (ASCII_LOWER @ LATIN1_LOWER)"

fun starts_with :: "string \<Rightarrow> string \<Rightarrow> bool" where
  "starts_with [] s = True"
| "starts_with (p # ps) [] = False"
| "starts_with (p # ps) (c # cs) = (p = c \<and> starts_with ps cs)"

text \<open>\<open>sub in s\<close> of Python and \<open>contains(s, sub)\<close> of XPath: \<open>sub\<close> occurs in \<open>s\<close>.\<close>

primrec contains :: "string \<Rightarrow> string \<Rightarrow> bool" where
  "contains sub [] = (sub = [])"
| "contains sub (c # cs) = (starts_with sub (c # cs) \<or> contains sub cs)"

section \<open>The parsed document\<close>

text \<open>
  An lxml tree: an element has a namespace, a local name, its \<open>.text\<close> (the text before
  its first child), its children and its \<open>.tail\<close> (the text after its end tag); a comment
  or processing instruction is in the tree too, with a tail. A text or tail of \<open>None\<close>
  is the empty string.
\<close>

datatype node =
    Element (ns: string) (localname: string) (elem_text: string) (children: "node list")
      (tail: string)
  | Comment (tail: string)
where
  "ns (Comment t) = []"
| "localname (Comment t) = []"
| "elem_text (Comment t) = []"
| "children (Comment t) = []"

text \<open>
  \<open>e.itertext()\<close>: the element's text, then for each child in order its own
  \<open>itertext\<close> followed by its tail; a comment gives only its tail. The tail of \<open>e\<close>
  itself is not part of it.
\<close>

fun itertext :: "node \<Rightarrow> string list" where
  "itertext (Element n l t cs tail_text) =
     t # concat (map (\<lambda>c. itertext c @ [tail c]) cs)"
| "itertext (Comment tail_text) = []"

text \<open>The elements of a subtree, the node itself first, in document order.\<close>

fun subtree_elems :: "node \<Rightarrow> node list" where
  "subtree_elems (Element n l t cs tail_text) =
     Element n l t cs tail_text # concat (map subtree_elems cs)"
| "subtree_elems (Comment tail_text) = []"

text \<open>
  \<open>node.xpath(".//*[local-name() = $t]", t=tag)\<close>: the descendant elements of
  \<open>node\<close> (not \<open>node\<close> itself) with that local name, in document order.
\<close>

definition xpath_descendants_named :: "node \<Rightarrow> string \<Rightarrow> node list" where
  "xpath_descendants_named e t =
     filter (\<lambda>d. localname d = t) (concat (map subtree_elems (children e)))"

text \<open>
  \<open>root.xpath("//*[local-name() = 'T']")\<close>: every element of the document with
  that local name, the root element included, in document order.
\<close>

definition xpath_all_named :: "node \<Rightarrow> string \<Rightarrow> node list" where
  "xpath_all_named root_elem t = filter (\<lambda>d. localname d = t) (subtree_elems root_elem)"

text \<open>
  \<open>root.xpath("//*[contains(translate(local-name(), 'A..Z', 'a..z'), 'grant')]")\<close>.
\<close>

definition xpath_all_grantlike :: "node \<Rightarrow> node list" where
  "xpath_all_grantlike root_elem =
     filter (\<lambda>d. contains ''grant'' (translate (localname d) ASCII_UPPER ASCII_LOWER))
       (subtree_elems root_elem)"

section \<open>Field extraction\<close>

definition NAME_TAG_CANDIDATES :: "string list" where
  "NAME_TAG_CANDIDATES =
     [''BusinessNameLine1Txt'', ''BusinessNameLine1'', ''BusinessName'',
      ''RecipientBusinessName'']"

definition AMOUNT_TAG_CANDIDATES :: "string list" where
  "AMOUNT_TAG_CANDIDATES =
     [''Amt'', ''Amount'', ''GrantAmount'', ''ContributionAmt'', ''ContributionAmount'']"

text \<open>
  The inner loop of \<open>first_text_for_tags\<close>: the first element of \<open>elems\<close> whose
  joined, stripped text is not empty ends the search.
\<close>

fun first_text_in :: "node list \<Rightarrow> string option" where
  "first_text_in [] = None"
| "first_text_in (e # elems) =
     (let text = strip (concat (itertext e))
      in if text \<noteq> [] then Some text else first_text_in elems)"

fun first_text_for_tags :: "node \<Rightarrow> string list \<Rightarrow> string option" where
  "first_text_for_tags node [] = None"
| "first_text_for_tags node (tag # tag_names) =
     (case first_text_in (xpath_descendants_named node tag) of
        Some text \<Rightarrow> Some text
      | None \<Rightarrow> first_text_for_tags node tag_names)"

section \<open>Row extraction\<close>

record row =
  recipient :: string
  amount :: pyfloat

text \<open>What the program prints, one value per \<open>print\<close> call.\<close>

datatype message =
    DebugFound nat
  | DebugSkipping string bool bool
  | DebugCannotParse string string
  | NoGrantsExtracted
  | TryPrintingSnippet
  | Saved nat string
  | Traceback exn

text \<open>Python truth of a string or \<open>None\<close>: \<open>None\<close> and the empty string are false.\<close>

fun truthy :: "string option \<Rightarrow> bool" where
  "truthy None = False"
| "truthy (Some s) = (s \<noteq> [])"

definition GRANT_GROUP :: string where
  "GRANT_GROUP = ''GrantOrContributionPdDurYrGrp''"

text \<open>The group search of \<open>extract_grants\<close>, with its fallback under \<open>debug\<close>.\<close>

definition grant_nodes :: "node \<Rightarrow> bool \<Rightarrow> node list" where
  "grant_nodes root_elem debug =
     (let found = xpath_all_named root_elem GRANT_GROUP
      in if found = [] \<and> debug then xpath_all_grantlike root_elem else found)"

text \<open>
  The \<open>for node in grant_nodes\<close> loop, with \<open>results\<close> and the lines printed so far
  passed along; \<open>continue\<close> is the recursive call on the rest. An exception of
  \<open>clean_amount_to_float\<close> would leave the loop (\<open>Inl\<close>).
\<close>

fun grant_loop ::
  "bool \<Rightarrow> node list \<Rightarrow> row list \<Rightarrow> message list \<Rightarrow> exn + (row list \<times> message list)"
where
  "grant_loop debug [] results printed = Inr (results, printed)"
| "grant_loop debug (node # rest) results printed =
     (let name = first_text_for_tags node NAME_TAG_CANDIDATES;
          amount_raw = first_text_for_tags node AMOUNT_TAG_CANDIDATES
      in if \<not> truthy name \<or> \<not> truthy amount_raw then
           grant_loop debug rest results
             (if debug
              then printed @ [DebugSkipping (localname node) (truthy name) (truthy amount_raw)]
              else printed)
         else
           (case clean_amount_to_float amount_raw of
              Inl e \<Rightarrow> Inl e
            | Inr None \<Rightarrow>
                grant_loop debug rest results
                  (if debug
                   then printed @ [DebugCannotParse (the amount_raw) (the name)]
                   else printed)
            | Inr (Some amt_val) \<Rightarrow>
                if contains ''total'' (lower (the name)) then
                  grant_loop debug rest results printed
                else
                  grant_loop debug rest
                    (results @ [\<lparr>recipient = the name, amount = amt_val\<rparr>]) printed))"

text \<open>
  \<open>extract_grants(xml_path, debug)\<close>. The file system is a function from a path to what
  \<open>ET.parse\<close> gives for it: the root element, or the exception it raises. The result is
  the list of rows together with the lines printed to standard output.
\<close>

type_synonym filesystem = "string \<Rightarrow> exn + node"

definition extract_grants ::
  "filesystem \<Rightarrow> string \<Rightarrow> bool \<Rightarrow> exn + (row list \<times> message list)"
where
  "extract_grants fs xml_path debug =
     (case fs xml_path of
        Inl e \<Rightarrow> Inl e
      | Inr root_elem \<Rightarrow>
          (let found = grant_nodes root_elem debug
           in grant_loop debug found []
                (if debug then [DebugFound (length found)] else [])))"

section \<open>The command\<close>





section \<open>The specification's notions\<close>

text \<open>
  The definitions of this section follow the words of the specification, not the code;
  the theorems compare them with the functions above. The sample documents at its end
  are the inputs at which the theorems are instantiated.
\<close>

subsection \<open>Amount normalizer\<close>

text \<open>A digit, a period or a minus sign: what step 6 of the normalizer keeps.\<close>

definition numeric_char :: "char \<Rightarrow> bool" where
  "numeric_char c = (is_digit c \<or> c = CHR ''.'' \<or> c = CHR ''-'')"

text \<open>Step 5 on one character: an opening parenthesis becomes a minus sign.\<close>

definition paren_minus :: "char \<Rightarrow> char" where
  "paren_minus c = (if c = CHR ''('' then CHR ''-'' else c)"

text \<open>
  Steps 2 to 6 in order: trim surrounding white space, remove non-breaking spaces,
  remove commas, replace \<open>(\<close> by \<open>-\<close> and drop \<open>)\<close>, strip every character that is
  not a digit, a period or a minus sign.
\<close>

definition spec_steps :: "string \<Rightarrow> string" where
  "spec_steps raw =
     filter numeric_char
       (filter (\<lambda>c. c \<noteq> CHR '')'')
          (map paren_minus
             (filter (\<lambda>c. c \<noteq> CHR '','')
                (filter (\<lambda>c. c \<noteq> NBSP) (strip raw)))))"

text \<open>
  A well-formed numeral over digits, period and minus: no minus sign after the first
  character, at most one period, at least one digit. A malformed one has several minus
  signs or periods, a minus sign inside, or no digit.
\<close>

definition well_formed_numeral :: "string \<Rightarrow> bool" where
  "well_formed_numeral r =
     (CHR ''-'' \<notin> set (tl r) \<and> length (filter (\<lambda>c. c = CHR ''.'') r) \<le> 1
      \<and> (\<exists>c \<in> set r. is_digit c))"

subsection \<open>Positions and document order\<close>

definition is_element :: "node \<Rightarrow> bool" where
  "is_element n = (case n of Element _ _ _ _ _ \<Rightarrow> True | Comment _ \<Rightarrow> False)"

text \<open>
  A position in the tree is the list of child indices that leads to it from the root;
  \<open>node_at\<close> follows it, at any depth.
\<close>

fun node_at :: "node \<Rightarrow> nat list \<Rightarrow> node option" where
  "node_at n [] = Some n"
| "node_at n (i # p) =
     (if i < length (children n) then node_at (children n ! i) p else None)"

text \<open>
  Document order on positions: a node comes before its descendants, and the subtree of
  a child comes before the subtrees of the children after it.
\<close>

fun doc_before :: "nat list \<Rightarrow> nat list \<Rightarrow> bool" where
  "doc_before [] [] = False"
| "doc_before [] (j # q) = True"
| "doc_before (i # p) [] = False"
| "doc_before (i # p) (j # q) = (i < j \<or> (i = j \<and> doc_before p q))"

text \<open>The positions of the elements of a subtree, listed by traversal.\<close>

fun elem_paths :: "node \<Rightarrow> nat list list" where
  "elem_paths (Element n l t cs tail_text) =
     [] # concat (map (\<lambda>(i, ps). map ((#) i) ps) (enumerate 0 (map elem_paths cs)))"
| "elem_paths (Comment tail_text) = []"

subsection \<open>Field extractor and rows\<close>

text \<open>
  All text content of an element and its descendants, in document order: its own text,
  then for each child the content of the child followed by the text after the child.
\<close>

fun text_content :: "node \<Rightarrow> string" where
  "text_content (Element n l t cs tail_text) =
     t @ concat (map (\<lambda>c. text_content c @ tail c) cs)"
| "text_content (Comment tail_text) = []"

text \<open>An element with non-empty text: its text content, trimmed, is not empty.\<close>

definition has_text :: "node \<Rightarrow> bool" where
  "has_text e = (strip (text_content e) \<noteq> [])"

text \<open>
  A descendant element of a group: an element at a position below the group, at any
  depth. The group itself, at the empty position, is not one.
\<close>

definition descendant_at :: "node \<Rightarrow> nat list \<Rightarrow> node \<Rightarrow> bool" where
  "descendant_at g p e = (p \<noteq> [] \<and> node_at g p = Some e \<and> is_element e)"

text \<open>A candidate tag that has a matching descendant element with non-empty text.\<close>

definition tag_has_text :: "node \<Rightarrow> string \<Rightarrow> bool" where
  "tag_has_text g t = (\<exists>p e. descendant_at g p e \<and> localname e = t \<and> has_text e)"

text \<open>
  The rows one group contributes: what the loop of \<open>extract_grants\<close> appends when it
  runs on that group alone.
\<close>

definition group_rows :: "node \<Rightarrow> row list" where
  "group_rows g =
     (case grant_loop False [g] [] [] of Inr (rows, printed) \<Rightarrow> rows | Inl e \<Rightarrow> [])"

text \<open>The rows that survive filtering, in the order of their groups.\<close>

definition surviving_rows :: "node \<Rightarrow> bool \<Rightarrow> row list" where
  "surviving_rows root_elem debug = concat (map group_rows (grant_nodes root_elem debug))"

subsection \<open>Sample documents\<close>

text \<open>A file system in which every path parses to the same document.\<close>

definition only_file :: "node \<Rightarrow> filesystem" where
  "only_file d = (\<lambda>path. Inr d)"

text \<open>An element with no namespace, no tail and only text; an element with only children.\<close>

definition leaf :: "string \<Rightarrow> string \<Rightarrow> node" where
  "leaf name txt = Element [] name txt [] []"

definition branch :: "string \<Rightarrow> node list \<Rightarrow> node" where
  "branch name cs = Element [] name [] cs []"

text \<open>
  A grant group as the filings have it: the recipient's business name, nested, and the
  amount.
\<close>

definition grant_group :: "string \<Rightarrow> string \<Rightarrow> node" where
  "grant_group name amt =
     branch ''GrantOrContributionPdDurYrGrp''
       [branch ''RecipientBusinessName'' [leaf ''BusinessNameLine1Txt'' name],
        leaf ''Amt'' amt]"

text \<open>
  A return with five groups: two good ones, a total line, one with no name and one
  whose amount is not a number.
\<close>

definition sample_return :: node where
  "sample_return =
     branch ''Return''
       [grant_group ''Acme Fund'' ''$500.00'',
        grant_group ''Total Grants'' ''750'',
        branch ''GrantOrContributionPdDurYrGrp'' [leaf ''Amt'' ''10''],
        grant_group ''Beta'' ''(250)'',
        grant_group ''Gamma'' ''n/a'']"

text \<open>A return whose only group is a total line.\<close>

definition totals_only_return :: node where
  "totals_only_return = branch ''Return'' [grant_group ''Total Contributions'' ''100'']"

text \<open>
  A return with no element named \<open>GrantOrContributionPdDurYrGrp\<close> but one whose name
  contains \<open>grant\<close>; and a return whose only amount is 309 nines.
\<close>

definition fallback_return :: node where
  "fallback_return =
     branch ''Return''
       [branch ''GrantInfo'' [leaf ''BusinessName'' ''Acme Fund'', leaf ''Amt'' ''5'']]"

definition overflow_return :: node where
  "overflow_return = branch ''Return'' [grant_group ''Acme Fund'' (replicate 309 CHR ''9'')]"

text \<open>
  A return in the namespace of the filings, with groups at two depths, a comment
  between them and one group in another namespace.
\<close>

definition nested_return :: node where
  "nested_return =
     Element ''http://www.irs.gov/efile'' ''Return'' []
       [Element ''http://www.irs.gov/efile'' ''ReturnData'' []
          [Element ''http://www.irs.gov/efile'' ''GrantOrContributionPdDurYrGrp'' []
             [leaf ''Amt'' ''1''] [],
           Comment [],
           Element ''http://www.irs.gov/efile'' ''Schedule'' []
             [Element ''urn:other'' ''GrantOrContributionPdDurYrGrp'' []
                [leaf ''Amt'' ''2''] []] []] [],
        Element [] ''GrantOrContributionPdDurYrGrp'' [] [leaf ''Amt'' ''3''] []] []"



text \<open>
  A group whose only amount is nested one level down, before an element of a later
  candidate tag; and a group whose name is the text of a child of the name element.
\<close>

definition nested_amount_group :: node where
  "nested_amount_group =
     branch ''G'' [branch ''Detail'' [leaf ''Amt'' ''1''], leaf ''Amount'' ''2'']"

definition nested_name_group :: node where
  "nested_name_group = branch ''G'' [branch ''RecipientBusinessName'' [leaf ''Foo'' ''Acme'']]"

text \<open>
  A group in which an element of a later candidate tag comes first in the document, and
  the first element of the winning tag has only white space.
\<close>

definition priority_group :: node where
  "priority_group =
     branch ''Grp''
       [leaf ''Amount'' ''5'', branch ''Detail'' [leaf ''Amt'' '' ''], leaf ''Amt'' '' 7 '']"

section \<open>Properties of the amount normalizer\<close>

lemma re_sub_empty_filter: "re_sub_empty re s = filter (\<lambda>c. \<not> re c) s"
  by (induction s) auto

lemma replace_delete: "replace old [] s = filter (\<lambda>c. c \<noteq> old) s"
  by (induction s) auto

lemma replace_single: "replace old [new] s = map (\<lambda>c. if c = old then new else c) s"
  by (induction s) auto

lemma filter_dropWhile_disjoint:
  "(\<And>c. Q c \<Longrightarrow> \<not> P c) \<Longrightarrow> filter P (dropWhile Q s) = filter P s"
  by (induction s) auto

lemma filter_strip:
  assumes "\<And>c. is_space c \<Longrightarrow> \<not> P c"
  shows "filter P (strip s) = filter P s"
proof -
  have "filter P (strip s) = rev (filter P (dropWhile is_space (rev (dropWhile is_space s))))"
    by (simp add: strip_def rev_filter)
  also have "\<dots> = rev (filter P (rev (dropWhile is_space s)))"
    using assms by (simp add: filter_dropWhile_disjoint)
  also have "\<dots> = filter P (dropWhile is_space s)"
    by (simp add: rev_filter)
  also have "\<dots> = filter P s"
    using assms by (simp add: filter_dropWhile_disjoint)
  finally show ?thesis .
qed

lemma code_point_simps:
  "code_point CHR ''.'' = 46" "code_point CHR ''-'' = 45" "code_point CHR ''('' = 40"
  "code_point CHR '')'' = 41" "code_point CHR '','' = 44" "code_point NBSP = 160"
  by (simp_all add: code_point_def NBSP_def)

lemma is_space_not_numeric:
  "is_space c \<Longrightarrow> \<not> is_digit c \<and> c \<noteq> CHR ''.'' \<and> c \<noteq> CHR ''-'' \<and> c \<noteq> CHR ''(''"
  by (auto simp: is_space_def is_digit_def Let_def code_point_simps)

lemma filter_map_filter_absorb:
  "(\<And>c. P (f c) \<Longrightarrow> Q c) \<Longrightarrow> filter P (map f (filter Q xs)) = filter P (map f xs)"
  by (induction xs) auto

lemma filter_filter_absorb:
  "(\<And>c. P c \<Longrightarrow> Q c) \<Longrightarrow> filter P (filter Q xs) = filter P xs"
  by (induction xs) auto

lemma numeric_paren_minus:
  "numeric_char (paren_minus c) \<Longrightarrow> c \<noteq> NBSP \<and> c \<noteq> CHR '',''"
  by (auto simp: numeric_char_def paren_minus_def is_digit_def code_point_def NBSP_def
      split: if_splits)

lemma numeric_not_close: "numeric_char c \<Longrightarrow> c \<noteq> CHR '')''"
  by (auto simp: numeric_char_def is_digit_def code_point_simps)

lemma space_not_numeric_paren: "is_space c \<Longrightarrow> \<not> numeric_char (paren_minus c)"
  using is_space_not_numeric [of c]
  by (auto simp: numeric_char_def paren_minus_def is_space_def Let_def code_point_simps)

lemma cleaned_spec_steps: "cleaned s = spec_steps s"
proof -
  have "(\<lambda>c. \<not> AMOUNT_CLEAN_RE c) = numeric_char"
    by (rule ext) (simp add: AMOUNT_CLEAN_RE_def numeric_char_def)
  then have re: "\<And>x. re_sub_empty AMOUNT_CLEAN_RE x = filter numeric_char x"
    by (simp add: re_sub_empty_filter)
  have "(\<lambda>c. if c = CHR ''('' then CHR ''-'' else c) = paren_minus"
    by (rule ext) (simp add: paren_minus_def)
  then have rp: "\<And>x. replace (CHR ''('') ''-'' x = map paren_minus x"
    by (simp add: replace_single)
  show ?thesis
    by (simp add: cleaned_def spec_steps_def re rp replace_delete)
qed

text \<open>The cleaning is a filter over the whole string, whatever the position.\<close>

lemma spec_steps_char_level: "spec_steps s = filter numeric_char (map paren_minus s)"
proof -
  have "spec_steps s = filter numeric_char (map paren_minus
        (filter (\<lambda>c. c \<noteq> CHR '','') (filter (\<lambda>c. c \<noteq> NBSP) (strip s))))"
    unfolding spec_steps_def by (rule filter_filter_absorb) (rule numeric_not_close)
  also have "\<dots> = filter numeric_char (map paren_minus (filter (\<lambda>c. c \<noteq> NBSP) (strip s)))"
    by (rule filter_map_filter_absorb) (simp add: numeric_paren_minus)
  also have "\<dots> = filter numeric_char (map paren_minus (strip s))"
    by (rule filter_map_filter_absorb) (simp add: numeric_paren_minus)
  also have "\<dots> = map paren_minus (filter (numeric_char \<circ> paren_minus) (strip s))"
    by (simp add: filter_map)
  also have "\<dots> = map paren_minus (filter (numeric_char \<circ> paren_minus) s)"
    by (simp add: filter_strip space_not_numeric_paren)
  also have "\<dots> = filter numeric_char (map paren_minus s)"
    by (simp add: filter_map)
  finally show ?thesis .
qed

lemma float_of_str_cases:
  "float_of_str s = Inl ValueError \<or> (\<exists>x. float_of_str s = Inr x \<and> x \<noteq> NaN)"
  by (auto simp: float_of_str_def Let_def round_to_double_def split: list.splits)

lemma minus_not_digit: "\<not> is_digit CHR ''-''" "\<not> is_digit CHR ''.''"
  by (simp_all add: is_digit_def code_point_simps)

lemma wf_body:
  "well_formed_numeral s \<longleftrightarrow>
     (let body = (if s \<noteq> [] \<and> hd s = CHR ''-'' then tl s else s)
      in CHR ''-'' \<notin> set body \<and> length (filter (\<lambda>c. c = CHR ''.'') body) \<le> 1
         \<and> (\<exists>c \<in> set body. is_digit c))"
  by (cases s) (auto simp: well_formed_numeral_def minus_not_digit)

lemma digits_no_period:
  "\<forall>c \<in> set xs. is_digit c \<Longrightarrow> filter (\<lambda>c. c = CHR ''.'') xs = []"
  by (auto simp: filter_empty_conv minus_not_digit)

lemma numeric_all_digits:
  assumes "\<forall>c \<in> set xs. numeric_char c"
  shows "list_all is_digit xs \<longleftrightarrow> CHR ''-'' \<notin> set xs \<and> CHR ''.'' \<notin> set xs"
  using assms by (auto simp: list_all_iff numeric_char_def minus_not_digit)

lemma period_count:
  "length (filter (\<lambda>c. c = CHR ''.'') xs) = 0 \<longleftrightarrow> CHR ''.'' \<notin> set xs"
  by (auto simp: filter_empty_conv)

lemma float_of_str_ok_iff:
  assumes "\<forall>c \<in> set s. numeric_char c"
  shows "(\<exists>x. float_of_str s = Inr x) \<longleftrightarrow> well_formed_numeral s"
proof -
  define body where "body = (if s \<noteq> [] \<and> hd s = CHR ''-'' then tl s else s)"
  define ip where "ip = takeWhile is_digit body"
  define rest where "rest = dropWhile is_digit body"
  have body: "body = ip @ rest" by (simp add: ip_def rest_def)
  have alpha: "\<forall>c \<in> set body. numeric_char c"
    using assms by (cases s) (auto simp: body_def)
  have ipd: "\<forall>c \<in> set ip. is_digit c"
    unfolding ip_def by (auto dest: set_takeWhileD)
  have f: "float_of_str s = (case rest of
           [] \<Rightarrow> if ip = [] then Inl ValueError
                 else Inr (round_to_double (decimal_value (s \<noteq> [] \<and> hd s = CHR ''-'') ip []))
         | c # fp \<Rightarrow>
             if c = CHR ''.'' \<and> list_all is_digit fp \<and> (ip \<noteq> [] \<or> fp \<noteq> [])
             then Inr (round_to_double (decimal_value (s \<noteq> [] \<and> hd s = CHR ''-'') ip fp))
             else Inl ValueError)"
    by (simp only: float_of_str_def Let_def ip_def rest_def body_def)
  have wf: "well_formed_numeral s \<longleftrightarrow>
     CHR ''-'' \<notin> set body \<and> length (filter (\<lambda>c. c = CHR ''.'') body) \<le> 1
      \<and> (\<exists>c \<in> set body. is_digit c)"
    unfolding body_def using wf_body [of s] by (simp only: Let_def)
  show ?thesis
  proof (cases rest)
    case Nil
    then have "body = ip" using body by simp
    then show ?thesis
      using ipd Nil by (cases ip) (auto simp: f wf digits_no_period minus_not_digit)
  next
    case (Cons c fp)
    have nd: "\<not> is_digit c"
      using Cons unfolding rest_def by (metis dropWhile_eq_Cons_conv)
    have b: "body = ip @ c # fp" using body Cons by simp
    have "numeric_char c" using alpha b by simp
    then consider "c = CHR ''-''" | "c = CHR ''.''"
      using nd by (auto simp: numeric_char_def)
    then show ?thesis
    proof cases
      case 1
      then show ?thesis by (simp add: f Cons wf b)
    next
      case 2
      have fpa: "\<forall>c \<in> set fp. numeric_char c" using alpha b by simp
      have ipm: "CHR ''-'' \<notin> set ip" using ipd minus_not_digit by blast
      have cnt: "length (filter (\<lambda>c. c = CHR ''.'') body) \<le> 1 \<longleftrightarrow> CHR ''.'' \<notin> set fp"
        using period_count [of fp] by (simp add: b 2 digits_no_period [OF ipd])
      have dig: "list_all is_digit fp \<Longrightarrow>
          (\<exists>c \<in> set body. is_digit c) \<longleftrightarrow> ip \<noteq> [] \<or> fp \<noteq> []"
        using ipd by (cases ip; cases fp) (auto simp: b 2 minus_not_digit list_all_iff)
      have mem: "CHR ''-'' \<notin> set body \<longleftrightarrow> CHR ''-'' \<notin> set fp"
        using ipm by (simp add: b 2)
      have wf2: "well_formed_numeral s \<longleftrightarrow>
          list_all is_digit fp \<and> (\<exists>c \<in> set body. is_digit c)"
        unfolding wf cnt mem numeric_all_digits [OF fpa] by blast
      have fl: "(\<exists>x. float_of_str s = Inr x) \<longleftrightarrow>
          list_all is_digit fp \<and> (ip \<noteq> [] \<or> fp \<noteq> [])"
        by (simp add: f Cons 2)
      show ?thesis
        unfolding wf2 fl using dig by blast
    qed
  qed
qed
lemma spec_steps_numeric: "\<forall>c \<in> set (spec_steps s). numeric_char c"
  by (simp add: spec_steps_def)

lemma clean_amount_well_formed:
  assumes "well_formed_numeral (spec_steps raw)"
  shows "\<exists>x. float_of_str (spec_steps raw) = Inr x \<and> x \<noteq> NaN
           \<and> clean_amount_to_float (Some raw) = Inr (Some x)"
proof -
  obtain x where x: "float_of_str (spec_steps raw) = Inr x"
    using assms float_of_str_ok_iff [OF spec_steps_numeric] by blast
  have ne: "spec_steps raw \<noteq> []"
    using assms by (auto simp: well_formed_numeral_def)
  have "x \<noteq> NaN" using float_of_str_cases [of "spec_steps raw"] x by auto
  then show ?thesis
    using x ne by (simp add: clean_amount_to_float_def cleaned_spec_steps Let_def)
qed

lemma clean_amount_malformed:
  assumes "\<not> well_formed_numeral (spec_steps raw)"
  shows "clean_amount_to_float (Some raw) = Inr None"
proof -
  have "float_of_str (spec_steps raw) = Inl ValueError"
    using assms float_of_str_ok_iff [OF spec_steps_numeric, of raw]
      float_of_str_cases [of "spec_steps raw"] by auto
  then show ?thesis
    by (simp add: clean_amount_to_float_def cleaned_spec_steps Let_def)
qed

lemmas normalizer_defs =
  clean_amount_to_float_def cleaned_def strip_def is_space_def code_point_def NBSP_def
  AMOUNT_CLEAN_RE_def is_digit_def float_of_str_def round_to_double_def DBL_OVERFLOW_def
  decimal_value_def digits_val_def digit_val_def

lemmas spec_defs =
  well_formed_numeral_def spec_steps_def strip_def is_space_def code_point_def NBSP_def
  numeric_char_def paren_minus_def is_digit_def

text \<open>
  C1. The amount normalizer applies the steps of the specification: absent input gives
  absent; the string it hands to the float parser is the one steps 2 to 6 produce; a
  well-formed residue gives the float the parser reads from it, a malformed one (the
  empty one too) gives absent and no exception. The four examples of the specification
  hold: \<open>(1,234.56)\<close> gives -1234.56, \<open>$1,000\<close> gives 1000.0, \<open>abc\<close> and the empty
  string give absent.
\<close>

theorem normalizer_follows_spec_steps:
  "clean_amount_to_float None = Inr None
   \<and> cleaned raw = spec_steps raw
   \<and> (well_formed_numeral (spec_steps raw) \<longrightarrow>
        (\<exists>x. float_of_str (spec_steps raw) = Inr x \<and> x \<noteq> NaN
           \<and> clean_amount_to_float (Some raw) = Inr (Some x)))
   \<and> (\<not> well_formed_numeral (spec_steps raw) \<longrightarrow>
        clean_amount_to_float (Some raw) = Inr None)
   \<and> clean_amount_to_float (Some ''(1,234.56)'') = Inr (Some (Finite (- 123456 / 100)))
   \<and> clean_amount_to_float (Some ''$1,000'') = Inr (Some (Finite 1000))
   \<and> clean_amount_to_float (Some ''abc'') = Inr None
   \<and> clean_amount_to_float (Some []) = Inr None"
proof -
  have e1: "clean_amount_to_float (Some ''(1,234.56)'') = Inr (Some (Finite (- 123456 / 100)))"
    by (simp add: normalizer_defs)
  have e2: "clean_amount_to_float (Some ''$1,000'') = Inr (Some (Finite 1000))"
    by (simp add: normalizer_defs)
  have e3: "clean_amount_to_float (Some ''abc'') = Inr None"
    by (simp add: normalizer_defs)
  have e4: "clean_amount_to_float (Some []) = Inr None"
    by (simp add: normalizer_defs)
  have n: "clean_amount_to_float None = Inr None"
    by (simp add: clean_amount_to_float_def)
  show ?thesis
    using n e1 e2 e3 e4 cleaned_spec_steps [of raw] clean_amount_well_formed [of raw]
      clean_amount_malformed [of raw]
    by blast
qed

theorem normalizer_follows_spec_steps_witness:
  "well_formed_numeral (spec_steps ''(500)'')
   \<and> clean_amount_to_float (Some ''(500)'') = Inr (Some (Finite (- 500)))
   \<and> \<not> well_formed_numeral (spec_steps ''1-2.3.'')
   \<and> clean_amount_to_float (Some ''1-2.3.'') = Inr None"
proof -
  have w: "well_formed_numeral (spec_steps ''(500)'')"
    by (simp add: spec_defs)
  have m: "\<not> well_formed_numeral (spec_steps ''1-2.3.'')"
    by (simp add: spec_defs)
  have v: "float_of_str (spec_steps ''(500)'') = Inr (Finite (- 500))"
    by (simp add: spec_defs normalizer_defs)
  show ?thesis
    using w m v normalizer_follows_spec_steps [of "''(500)''"]
      normalizer_follows_spec_steps [of "''1-2.3.''"]
    by auto
qed

text \<open>
  C9. \<open>clean_amount_to_float\<close> is total on a string or absent: it returns a float or
  absent and raises nothing, also for unbalanced parentheses, several minus signs and
  strings with no digit.
\<close>

theorem clean_amount_never_raises:
  "(\<exists>r. clean_amount_to_float s = Inr r \<and> r \<noteq> Some NaN)
   \<and> clean_amount_to_float (Some ''((5)'') = Inr None
   \<and> clean_amount_to_float (Some ''(5'') = Inr (Some (Finite (- 5)))
   \<and> clean_amount_to_float (Some ''5)'') = Inr (Some (Finite 5))
   \<and> clean_amount_to_float (Some ''--5'') = Inr None
   \<and> clean_amount_to_float (Some ''$ USD'') = Inr None"
proof -
  have "\<exists>r. clean_amount_to_float s = Inr r \<and> r \<noteq> Some NaN"
  proof (cases s)
    case None
    then show ?thesis by (simp add: clean_amount_to_float_def)
  next
    case (Some raw)
    then show ?thesis
      using clean_amount_well_formed [of raw] clean_amount_malformed [of raw]
      by (cases "well_formed_numeral (spec_steps raw)") auto
  qed
  moreover have "clean_amount_to_float (Some ''((5)'') = Inr None"
    by (simp add: normalizer_defs)
  moreover have "clean_amount_to_float (Some ''(5'') = Inr (Some (Finite (- 5)))"
    by (simp add: normalizer_defs)
  moreover have "clean_amount_to_float (Some ''5)'') = Inr (Some (Finite 5))"
    by (simp add: normalizer_defs)
  moreover have "clean_amount_to_float (Some ''--5'') = Inr None"
    by (simp add: normalizer_defs)
  moreover have "clean_amount_to_float (Some ''$ USD'') = Inr None"
    by (simp add: normalizer_defs)
  ultimately show ?thesis by blast
qed

theorem clean_amount_never_raises_witness:
  "\<exists>r. clean_amount_to_float (Some ''(1)2-3('') = Inr r"
  using clean_amount_never_raises [of "Some ''(1)2-3(''"] by blast

text \<open>
  C10, as stated, fails: an opening parenthesis is not a digit, a period or a minus
  sign, yet it is not stripped; it becomes a minus sign, so the digit runs on its two
  sides do not form one numeral. \<open>1(2\<close> and \<open>1 (USD) 2\<close> give absent, not 12.0.
\<close>

theorem paren_between_digits_counterexample:
  "\<not> numeric_char CHR ''(''
   \<and> clean_amount_to_float (Some ''1(2'') = Inr None
   \<and> clean_amount_to_float (Some ''1 (USD) 2'') = Inr None
   \<and> clean_amount_to_float (Some ''12'') = Inr (Some (Finite 12))"
proof -
  have "\<not> numeric_char CHR ''(''"
    by (simp add: numeric_char_def is_digit_def code_point_def)
  moreover have "clean_amount_to_float (Some ''1(2'') = Inr None"
    by (simp add: normalizer_defs)
  moreover have "clean_amount_to_float (Some ''1 (USD) 2'') = Inr None"
    by (simp add: normalizer_defs)
  moreover have "clean_amount_to_float (Some ''12'') = Inr (Some (Finite 12))"
    by (simp add: normalizer_defs)
  ultimately show ?thesis by blast
qed

text \<open>
  C10, amended. The stripping is global: text that holds no digit, period, minus sign or
  opening parenthesis can be taken out anywhere in the string without changing the
  result, so the digits on both sides of it form one numeral; \<open>1 USD 2\<close> gives 12.0 and
  \<open>1e5\<close> gives 15.0. An opening parenthesis, anywhere in the string, counts as a minus
  sign.
\<close>

theorem stripping_is_global:
  "((\<forall>c \<in> set noise. \<not> numeric_char c \<and> c \<noteq> CHR ''('') \<longrightarrow>
     clean_amount_to_float (Some (a @ noise @ b)) = clean_amount_to_float (Some (a @ b)))
   \<and> clean_amount_to_float (Some (a @ ''('' @ b)) = clean_amount_to_float (Some (a @ ''-'' @ b))
   \<and> clean_amount_to_float (Some (''1 USD 2'')) = Inr (Some (Finite 12))
   \<and> clean_amount_to_float (Some (''1e5'')) = Inr (Some (Finite 15))"
proof -
  have "clean_amount_to_float (Some (a @ noise @ b)) = clean_amount_to_float (Some (a @ b))"
    if n: "\<forall>c \<in> set noise. \<not> numeric_char c \<and> c \<noteq> CHR ''(''"
  proof -
    have "filter numeric_char (map paren_minus noise) = []"
      using n by (auto simp: filter_empty_conv paren_minus_def)
    then have "spec_steps (a @ noise @ b) = spec_steps (a @ b)"
      by (simp add: spec_steps_char_level)
    then show ?thesis
      by (simp add: clean_amount_to_float_def cleaned_spec_steps)
  qed
  moreover have "clean_amount_to_float (Some (a @ ''('' @ b))
      = clean_amount_to_float (Some (a @ ''-'' @ b))"
  proof -
    have "spec_steps (a @ ''('' @ b) = spec_steps (a @ ''-'' @ b)"
      by (simp add: spec_steps_char_level paren_minus_def)
    then show ?thesis
      by (simp add: clean_amount_to_float_def cleaned_spec_steps)
  qed
  moreover have "clean_amount_to_float (Some (''1 USD 2'')) = Inr (Some (Finite 12))"
    by (simp add: normalizer_defs)
  moreover have "clean_amount_to_float (Some (''1e5'')) = Inr (Some (Finite 15))"
    by (simp add: normalizer_defs)
  ultimately show ?thesis by blast
qed

theorem stripping_is_global_witness:
  "list_all (\<lambda>c. \<not> numeric_char c \<and> c \<noteq> CHR ''('') '' USD ''
   \<and> clean_amount_to_float (Some (''1'' @ '' USD '' @ ''2''))
       = clean_amount_to_float (Some (''1'' @ ''2''))
   \<and> clean_amount_to_float (Some (''1'' @ ''('' @ ''2''))
       = clean_amount_to_float (Some (''1'' @ ''-'' @ ''2''))"
proof -
  have h: "\<forall>c \<in> set ('' USD ''). \<not> numeric_char c \<and> c \<noteq> CHR ''(''"
    by (simp add: numeric_char_def is_digit_def code_point_def)
  have "list_all (\<lambda>c. \<not> numeric_char c \<and> c \<noteq> CHR ''('') '' USD ''"
    using h unfolding list_all_iff .
  then show ?thesis
    using h stripping_is_global [of "'' USD ''" "''1''" "''2''"] by blast
qed

section \<open>The group locator and document order\<close>

lemma sorted_wrt_concat_map:
  assumes "\<forall>x \<in> set xs. sorted_wrt R (f x)"
    and "sorted_wrt (\<lambda>x y. \<forall>a \<in> set (f x). \<forall>b \<in> set (f y). R a b) xs"
  shows "sorted_wrt R (concat (map f xs))"
  using assms by (induction xs) (auto simp: sorted_wrt_append)

lemma node_at_child:
  "i < length cs \<Longrightarrow> node_at (Element n l t cs tx) (i # p) = node_at (cs ! i) p"
  by simp

lemma node_at_comment: "node_at (Comment tx) p = Some e \<longleftrightarrow> p = [] \<and> e = Comment tx"
  by (cases p) auto

lemma enumerate_blocks:
  "concat (map (\<lambda>(i, c). map ((#) i) (g c)) (enumerate k cs))
     = concat (map (\<lambda>i. map ((#) (k + i)) (g (cs ! i))) [0..<length cs])"
proof (induction cs arbitrary: k)
  case Nil
  then show ?case by simp
next
  case (Cons c cs)
  have "[0..<length (c # cs)] = 0 # map Suc [0..<length cs]"
    by (simp add: upt_conv_Cons map_Suc_upt del: upt_Suc)
  then show ?case
    using Cons [of "Suc k"] by (simp add: comp_def del: upt_Suc)
qed

lemma elem_paths_element:
  "elem_paths (Element n l t cs tx)
     = [] # concat (map (\<lambda>i. map ((#) i) (elem_paths (cs ! i))) [0..<length cs])"
proof -
  have "concat (map (\<lambda>(i, ps). map ((#) i) ps) (enumerate 0 (map elem_paths cs)))
      = concat (map (\<lambda>i. map ((#) (0 + i)) (map elem_paths cs ! i))
          [0..<length (map elem_paths cs)])"
    by (rule enumerate_blocks [of "\<lambda>ps. ps" 0 "map elem_paths cs"])
  also have "\<dots> = concat (map (\<lambda>i. map ((#) i) (elem_paths (cs ! i))) [0..<length cs])"
    by (intro arg_cong [where f = concat] map_cong) auto
  finally show ?thesis by simp
qed

lemma map_nth_children: "map (\<lambda>i. f (cs ! i)) [0..<length cs] = map f cs"
  by (rule nth_equalityI) auto

lemma elem_paths_nodes: "map (node_at n) (elem_paths n) = map Some (subtree_elems n)"
proof (induction n)
  case (Element nsp l t cs tx)
  let ?n = "Element nsp l t cs tx"
  have blk: "map (node_at ?n) (map ((#) i) (elem_paths (cs ! i)))
      = map Some (subtree_elems (cs ! i))" if "i < length cs" for i
    using that Element [of "cs ! i"] by (simp add: comp_def)
  have "map (node_at ?n)
          (concat (map (\<lambda>i. map ((#) i) (elem_paths (cs ! i))) [0..<length cs]))
      = concat (map (\<lambda>i. map (node_at ?n) (map ((#) i) (elem_paths (cs ! i))))
          [0..<length cs])"
    by (simp only: map_concat map_map comp_def)
  also have "\<dots> = concat (map (\<lambda>i. map Some (subtree_elems (cs ! i))) [0..<length cs])"
    by (intro arg_cong [where f = concat] map_cong) (auto simp only: blk atLeastLessThan_iff set_upt)
  also have "\<dots> = concat (map (map Some) (map subtree_elems cs))"
    using map_nth_children [of "\<lambda>c. map Some (subtree_elems c)" cs] by (simp add: comp_def)
  also have "\<dots> = map Some (concat (map subtree_elems cs))"
    by (simp add: map_concat)
  finally show ?case
    by (simp add: elem_paths_element del: elem_paths.simps)
next
  case (Comment tx)
  then show ?case by simp
qed

lemma elem_paths_set:
  "set (elem_paths n) = {p. \<exists>e. node_at n p = Some e \<and> is_element e}"
proof (induction n)
  case (Element nsp l t cs tx)
  let ?n = "Element nsp l t cs tx"
  have ih: "set (elem_paths (cs ! i)) = {p. \<exists>e. node_at (cs ! i) p = Some e \<and> is_element e}"
    if "i < length cs" for i
    using that Element [of "cs ! i"] by simp
  show ?case
  proof (rule set_eqI)
    fix p
    show "p \<in> set (elem_paths ?n) \<longleftrightarrow> p \<in> {p. \<exists>e. node_at ?n p = Some e \<and> is_element e}"
    proof (cases p)
      case Nil
      then show ?thesis
        by (simp add: elem_paths_element is_element_def del: elem_paths.simps)
    next
      case (Cons i q)
      have "p \<in> set (elem_paths ?n) \<longleftrightarrow> i < length cs \<and> q \<in> set (elem_paths (cs ! i))"
        by (auto simp: elem_paths_element Cons simp del: elem_paths.simps)
      also have "\<dots> \<longleftrightarrow> i < length cs \<and> (\<exists>e. node_at (cs ! i) q = Some e \<and> is_element e)"
        using ih by auto
      also have "\<dots> \<longleftrightarrow> (\<exists>e. node_at ?n p = Some e \<and> is_element e)"
        by (auto simp: Cons)
      finally show ?thesis by simp
    qed
  qed
next
  case (Comment tx)
  show ?case
    by (auto simp: node_at_comment is_element_def)
qed

lemma doc_before_cons: "doc_before (i # p) (i # q) = doc_before p q"
  by simp

lemma elem_paths_sorted: "sorted_wrt doc_before (elem_paths n)"
proof (induction n)
  case (Element nsp l t cs tx)
  let ?f = "\<lambda>i. map ((#) i) (elem_paths (cs ! i))"
  have inner: "\<forall>i \<in> set [0..<length cs]. sorted_wrt doc_before (?f i)"
    using Element by (auto simp: sorted_wrt_map)
  have "sorted_wrt (<) [0..<length cs]" by simp
  then have outer: "sorted_wrt (\<lambda>x y. \<forall>a \<in> set (?f x). \<forall>b \<in> set (?f y). doc_before a b)
      [0..<length cs]"
    by (rule sorted_wrt_mono_rel [rotated]) auto
  have "sorted_wrt doc_before (concat (map ?f [0..<length cs]))"
    using inner outer by (rule sorted_wrt_concat_map)
  moreover have "\<forall>q \<in> set (concat (map ?f [0..<length cs])). doc_before [] q"
    by auto
  ultimately show ?case
    by (simp add: elem_paths_element del: elem_paths.simps)
next
  case (Comment tx)
  then show ?case by simp
qed

lemma positions_of_filter:
  assumes "map f ps = map Some es" "sorted_wrt R ps"
  shows "\<exists>qs. sorted_wrt R qs
           \<and> set qs = {p \<in> set ps. \<exists>e. f p = Some e \<and> P e}
           \<and> map f qs = map Some (filter P es)"
proof -
  let ?Q = "\<lambda>x. case x of Some e \<Rightarrow> P e | None \<Rightarrow> False"
  let ?qs = "filter (?Q \<circ> f) ps"
  have "map f ?qs = filter ?Q (map f ps)"
    by (simp add: filter_map)
  also have "\<dots> = filter ?Q (map Some es)"
    by (simp add: assms(1))
  also have "\<dots> = map Some (filter P es)"
    by (simp add: filter_map comp_def)
  finally have m: "map f ?qs = map Some (filter P es)" .
  have s: "sorted_wrt R ?qs"
    using assms(2) by (rule sorted_wrt_filter)
  have "set ?qs = {p \<in> set ps. \<exists>e. f p = Some e \<and> P e}"
    by (auto split: option.splits)
  then show ?thesis using m s by blast
qed

lemma subtree_filter_positions:
  "\<exists>ps. sorted_wrt doc_before ps
        \<and> set ps = {p. \<exists>e. node_at root_elem p = Some e \<and> is_element e \<and> P e}
        \<and> map (node_at root_elem) ps = map Some (filter P (subtree_elems root_elem))"
proof -
  obtain qs where qs: "sorted_wrt doc_before qs"
      "set qs = {p \<in> set (elem_paths root_elem). \<exists>e. node_at root_elem p = Some e \<and> P e}"
      "map (node_at root_elem) qs = map Some (filter P (subtree_elems root_elem))"
    using positions_of_filter [OF elem_paths_nodes elem_paths_sorted, of root_elem P]
    by blast
  have "set qs = {p. \<exists>e. node_at root_elem p = Some e \<and> is_element e \<and> P e}"
    unfolding qs(2) elem_paths_set by auto
  then show ?thesis
    using qs(1) qs(3) by auto
qed

lemma xpath_all_named_positions:
  "\<exists>ps. sorted_wrt doc_before ps
        \<and> set ps = {p. \<exists>e. node_at root_elem p = Some e \<and> is_element e \<and> localname e = t}
        \<and> map (node_at root_elem) ps = map Some (xpath_all_named root_elem t)"
  using subtree_filter_positions [of root_elem "\<lambda>d. localname d = t"]
  by (simp add: xpath_all_named_def)

text \<open>In both modes the groups are found in document order.\<close>

lemma grant_nodes_positions:
  "\<exists>ps. sorted_wrt doc_before ps
        \<and> map (node_at root_elem) ps = map Some (grant_nodes root_elem debug)"
proof (cases "xpath_all_named root_elem GRANT_GROUP = [] \<and> debug")
  case True
  then have "grant_nodes root_elem debug
      = filter (\<lambda>d. contains ''grant'' (translate (localname d) ASCII_UPPER ASCII_LOWER))
          (subtree_elems root_elem)"
    by (simp add: grant_nodes_def Let_def xpath_all_grantlike_def)
  then show ?thesis
    using subtree_filter_positions
      [of root_elem "\<lambda>d. contains ''grant'' (translate (localname d) ASCII_UPPER ASCII_LOWER)"]
    by auto
next
  case False
  then have "grant_nodes root_elem debug = xpath_all_named root_elem GRANT_GROUP"
    by (auto simp: grant_nodes_def Let_def)
  then show ?thesis
    using xpath_all_named_positions [of root_elem GRANT_GROUP] by auto
qed

text \<open>
  C7. The group locator returns the elements whose local name is the target, whatever
  their depth and namespace, in document order: the list it returns is the list of the
  nodes at an increasing (in document order) list of positions, and these positions are
  all the positions of the tree that hold an element with that local name. Without the
  debug switch the groups are the elements it returns for
  \<open>GrantOrContributionPdDurYrGrp\<close>, also when there are none; the search for names
  containing \<open>grant\<close> replaces them only with the debug switch and only when there are
  none.
\<close>

theorem group_locator_all_elements_in_document_order:
  "(\<exists>ps. sorted_wrt doc_before ps
        \<and> set ps = {p. \<exists>e. node_at root_elem p = Some e \<and> is_element e \<and> localname e = t}
        \<and> map (node_at root_elem) ps = map Some (xpath_all_named root_elem t))
   \<and> grant_nodes root_elem False = xpath_all_named root_elem GRANT_GROUP
   \<and> grant_nodes root_elem True
       = (if xpath_all_named root_elem GRANT_GROUP = [] then xpath_all_grantlike root_elem
          else xpath_all_named root_elem GRANT_GROUP)"
  using xpath_all_named_positions [of root_elem t]
  by (simp add: grant_nodes_def Let_def)

lemma nested_groups:
  "grant_nodes nested_return False
     = [Element ''http://www.irs.gov/efile'' ''GrantOrContributionPdDurYrGrp'' []
          [leaf ''Amt'' ''1''] [],
        Element ''urn:other'' ''GrantOrContributionPdDurYrGrp'' [] [leaf ''Amt'' ''2''] [],
        Element [] ''GrantOrContributionPdDurYrGrp'' [] [leaf ''Amt'' ''3''] []]"
  by (simp add: nested_return_def grant_nodes_def xpath_all_named_def GRANT_GROUP_def leaf_def)

theorem group_locator_all_elements_in_document_order_witness:
  "(\<exists>ps. sorted_wrt doc_before ps
        \<and> map (node_at nested_return) ps
            = map Some
                [Element ''http://www.irs.gov/efile'' ''GrantOrContributionPdDurYrGrp'' []
                   [leaf ''Amt'' ''1''] [],
                 Element ''urn:other'' ''GrantOrContributionPdDurYrGrp'' []
                   [leaf ''Amt'' ''2''] [],
                 Element [] ''GrantOrContributionPdDurYrGrp'' [] [leaf ''Amt'' ''3''] []])
   \<and> sorted_wrt doc_before [ [0, 0], [0, 2, 0], [1] ]
   \<and> map (node_at nested_return) [ [0, 0], [0, 2, 0], [1] ]
       = map Some (grant_nodes nested_return False)
   \<and> grant_nodes fallback_return False = []
   \<and> grant_nodes fallback_return True
       = [branch ''GrantInfo'' [leaf ''BusinessName'' ''Acme Fund'', leaf ''Amt'' ''5'']]"
proof -
  have a: "\<exists>ps. sorted_wrt doc_before ps
        \<and> map (node_at nested_return) ps = map Some (grant_nodes nested_return False)"
    using group_locator_all_elements_in_document_order [of nested_return GRANT_GROUP]
    by auto
  have b: "sorted_wrt doc_before [ [0, 0], [0, 2, 0], [1] ]"
    by simp
  have c: "map (node_at nested_return) [ [0, 0], [0, 2, 0], [1] ]
       = map Some (grant_nodes nested_return False)"
    unfolding nested_groups by (simp add: nested_return_def leaf_def)
  have x: "xpath_all_named fallback_return GRANT_GROUP = []"
    by (simp add: fallback_return_def xpath_all_named_def GRANT_GROUP_def leaf_def branch_def)
  have d: "grant_nodes fallback_return False = []"
    using x group_locator_all_elements_in_document_order [of fallback_return GRANT_GROUP]
    by simp
  have "xpath_all_grantlike fallback_return
       = [branch ''GrantInfo'' [leaf ''BusinessName'' ''Acme Fund'', leaf ''Amt'' ''5'']]"
    by (simp add: fallback_return_def xpath_all_grantlike_def leaf_def branch_def translate_def
        ASCII_UPPER_def ASCII_LOWER_def)
  then have e: "grant_nodes fallback_return True
       = [branch ''GrantInfo'' [leaf ''BusinessName'' ''Acme Fund'', leaf ''Amt'' ''5'']]"
    using x group_locator_all_elements_in_document_order [of fallback_return GRANT_GROUP]
    by simp
  show ?thesis
    using a b c d e unfolding nested_groups by blast
qed

section \<open>Properties of the field extractor\<close>

text \<open>The joined text of the code is the text content of the element.\<close>

lemma joined_itertext: "concat (itertext e) = text_content e"
proof (induction e)
  case (Element nsp l t cs tx)
  have "concat (concat (map (\<lambda>c. itertext c @ [tail c]) cs))
      = concat (map (\<lambda>c. concat (itertext c @ [tail c])) cs)"
    by (induction cs) auto
  also have "\<dots> = concat (map (\<lambda>c. text_content c @ tail c) cs)"
    by (intro arg_cong [where f = concat] map_cong) (auto simp: Element)
  finally show ?case by simp
next
  case (Comment tx)
  then show ?case by simp
qed

lemma first_text_in_None:
  "first_text_in es = None \<longleftrightarrow> (\<forall>e \<in> set es. \<not> has_text e)"
  by (induction es) (auto simp: has_text_def joined_itertext Let_def)

lemma first_text_in_Some:
  "first_text_in es = Some x \<Longrightarrow>
     \<exists>k < length es. x = strip (text_content (es ! k)) \<and> x \<noteq> []
        \<and> (\<forall>m < k. \<not> has_text (es ! m))"
proof (induction es)
  case Nil
  then show ?case by simp
next
  case (Cons e es)
  show ?case
  proof (cases "has_text e")
    case True
    then have "x = strip (text_content e)"
      using Cons.prems by (simp add: has_text_def joined_itertext Let_def)
    then show ?thesis using True by (auto simp: has_text_def intro!: exI [of _ 0])
  next
    case False
    then have "first_text_in es = Some x"
      using Cons.prems by (simp add: has_text_def joined_itertext Let_def)
    then obtain k where k: "k < length es" "x = strip (text_content (es ! k))" "x \<noteq> []"
        "\<forall>m < k. \<not> has_text (es ! m)"
      using Cons.IH by blast
    have "\<forall>m < Suc k. \<not> has_text ((e # es) ! m)"
      using False k(4) by (auto simp: less_Suc_eq_0_disj)
    then show ?thesis
      using k by (intro exI [of _ "Suc k"]) simp
  qed
qed

text \<open>
  The search of the code finds the descendant elements with the given name: its result
  is the list of the nodes at the positions, in document order, of all of them.
\<close>

lemma descendants_positions:
  "\<exists>ps. sorted_wrt doc_before ps
        \<and> set ps = {p. \<exists>e. descendant_at g p e \<and> P e}
        \<and> map (node_at g) ps
            = map Some (filter P (concat (map subtree_elems (children g))))"
proof (cases g)
  case (Element nsp l t cs tx)
  let ?rest = "concat (map (\<lambda>i. map ((#) i) (elem_paths (cs ! i))) [0..<length cs])"
  have ep: "elem_paths g = [] # ?rest"
    unfolding Element by (rule elem_paths_element)
  have nodes: "map (node_at g) ?rest = map Some (concat (map subtree_elems cs))"
    using elem_paths_nodes [of g] unfolding ep by (simp add: Element)
  have sorted: "sorted_wrt doc_before ?rest"
    using elem_paths_sorted [of g] unfolding ep by simp
  have ne: "[] \<notin> set ?rest" by auto
  have "set ?rest = set (elem_paths g) - {[]}"
    using ne unfolding ep by auto
  then have set_rest: "set ?rest = {p. p \<noteq> [] \<and> (\<exists>e. node_at g p = Some e \<and> is_element e)}"
    unfolding elem_paths_set by auto
  obtain qs where qs: "sorted_wrt doc_before qs"
      "set qs = {p \<in> set ?rest. \<exists>e. node_at g p = Some e \<and> P e}"
      "map (node_at g) qs = map Some (filter P (concat (map subtree_elems cs)))"
    using positions_of_filter [OF nodes sorted, of P] by blast
  have "set qs = {p. \<exists>e. descendant_at g p e \<and> P e}"
    unfolding qs(2) set_rest descendant_at_def by auto
  then show ?thesis
    using qs(1) qs(3) by (auto simp: Element)
next
  case (Comment tx)
  have "{p. \<exists>e. descendant_at g p e \<and> P e} = {}"
    by (auto simp: Comment descendant_at_def node_at_comment)
  then show ?thesis
    by (auto simp: Comment intro!: exI [of _ "[]"])
qed

lemma xpath_descendants_positions:
  "\<exists>ps. sorted_wrt doc_before ps
        \<and> set ps = {p. \<exists>e. descendant_at g p e \<and> localname e = t}
        \<and> map (node_at g) ps = map Some (xpath_descendants_named g t)"
  using descendants_positions [of g "\<lambda>d. localname d = t"]
  by (simp add: xpath_descendants_named_def)

lemma xpath_descendants_set:
  "set (xpath_descendants_named g t) = {e. \<exists>p. descendant_at g p e \<and> localname e = t}"
proof -
  obtain ps where ps: "set ps = {p. \<exists>e. descendant_at g p e \<and> localname e = t}"
      "map (node_at g) ps = map Some (xpath_descendants_named g t)"
    using xpath_descendants_positions by blast
  have "e \<in> set (xpath_descendants_named g t)
      \<longleftrightarrow> (\<exists>p. descendant_at g p e \<and> localname e = t)" for e
  proof -
    have "e \<in> set (xpath_descendants_named g t)
        \<longleftrightarrow> Some e \<in> set (map Some (xpath_descendants_named g t))"
      by auto
    also have "\<dots> \<longleftrightarrow> Some e \<in> set (map (node_at g) ps)"
      by (simp only: ps(2))
    also have "\<dots> \<longleftrightarrow> (\<exists>p \<in> set ps. Some e = node_at g p)"
      by (simp add: image_iff)
    also have "\<dots> \<longleftrightarrow> (\<exists>p. descendant_at g p e \<and> localname e = t)"
      unfolding ps(1) by (auto simp: descendant_at_def)
    finally show ?thesis .
  qed
  then show ?thesis by blast
qed

lemma tag_has_text_iff:
  "tag_has_text g t \<longleftrightarrow> (\<exists>e \<in> set (xpath_descendants_named g t). has_text e)"
  unfolding tag_has_text_def xpath_descendants_set by blast

lemma first_text_for_tags_None:
  "first_text_for_tags g tags = None \<longleftrightarrow> (\<forall>t \<in> set tags. \<not> tag_has_text g t)"
proof (induction tags)
  case Nil
  then show ?case by simp
next
  case (Cons t tags)
  have "first_text_in (xpath_descendants_named g t) = None \<longleftrightarrow> \<not> tag_has_text g t"
    by (simp add: first_text_in_None tag_has_text_iff)
  then show ?case
    using Cons.IH by (cases "first_text_in (xpath_descendants_named g t)") auto
qed

lemma first_text_for_tags_Some:
  "first_text_for_tags g tags = Some x \<Longrightarrow>
     \<exists>i < length tags. first_text_in (xpath_descendants_named g (tags ! i)) = Some x
        \<and> (\<forall>j < i. \<not> tag_has_text g (tags ! j))"
proof (induction tags)
  case Nil
  then show ?case by simp
next
  case (Cons t tags)
  show ?case
  proof (cases "first_text_in (xpath_descendants_named g t)")
    case (Some y)
    then have "y = x" using Cons.prems by simp
    then show ?thesis using Some by (auto intro!: exI [of _ 0])
  next
    case None
    then have nt: "\<not> tag_has_text g t"
      by (simp add: first_text_in_None tag_has_text_iff)
    have "first_text_for_tags g tags = Some x"
      using Cons.prems None by simp
    then obtain i where i: "i < length tags"
        "first_text_in (xpath_descendants_named g (tags ! i)) = Some x"
        "\<forall>j < i. \<not> tag_has_text g (tags ! j)"
      using Cons.IH by blast
    have "\<forall>j < Suc i. \<not> tag_has_text g ((t # tags) ! j)"
      using nt i(3) by (auto simp: less_Suc_eq_0_disj)
    then show ?thesis
      using i by (intro exI [of _ "Suc i"]) simp
  qed
qed

lemma first_text_for_tags_nonempty: "first_text_for_tags g tags = Some x \<Longrightarrow> x \<noteq> []"
  using first_text_for_tags_Some first_text_in_Some by blast

lemma doc_before_asym: "doc_before p q \<Longrightarrow> \<not> doc_before q p"
  by (induction p q rule: doc_before.induct) auto

lemma sorted_index_before:
  assumes "sorted_wrt doc_before ps" "m < length ps" "k < length ps"
    and "doc_before (ps ! m) (ps ! k)"
  shows "m < k"
proof (rule ccontr)
  assume "\<not> m < k"
  then consider "m = k" | "k < m" by linarith
  then show False
  proof cases
    case 1
    then show ?thesis using assms(4) doc_before_asym by blast
  next
    case 2
    then have "doc_before (ps ! k) (ps ! m)"
      using assms(1,2) by (simp add: sorted_wrt_iff_nth_less)
    then show ?thesis using assms(4) doc_before_asym by blast
  qed
qed

text \<open>The first element with text of a tag, in document order.\<close>

lemma first_text_in_descendants:
  assumes "first_text_in (xpath_descendants_named g t) = Some x"
  shows "\<exists>p e. descendant_at g p e \<and> localname e = t
           \<and> x = strip (text_content e) \<and> x \<noteq> []
           \<and> (\<forall>q d. descendant_at g q d \<and> localname d = t \<and> doc_before q p
                 \<longrightarrow> \<not> has_text d)"
proof -
  let ?es = "xpath_descendants_named g t"
  obtain k where k: "k < length ?es" "x = strip (text_content (?es ! k))" "x \<noteq> []"
      "\<forall>m < k. \<not> has_text (?es ! m)"
    using first_text_in_Some [OF assms] by blast
  obtain ps where ps: "sorted_wrt doc_before ps"
      "set ps = {p. \<exists>e. descendant_at g p e \<and> localname e = t}"
      "map (node_at g) ps = map Some ?es"
    using xpath_descendants_positions by blast
  have "length (map (node_at g) ps) = length (map Some ?es)"
    by (simp only: ps(3))
  then have len: "length ps = length ?es" by simp
  have at: "node_at g (ps ! m) = Some (?es ! m)" if "m < length ps" for m
  proof -
    have "map (node_at g) ps ! m = map Some ?es ! m"
      by (simp only: ps(3))
    then show ?thesis using that len by simp
  qed
  have "ps ! k \<in> set ps" using k(1) len by simp
  then obtain e where e: "descendant_at g (ps ! k) e" "localname e = t"
    unfolding ps(2) by blast
  then have ek: "e = ?es ! k"
    using at [of k] k(1) len by (simp add: descendant_at_def)
  have before: "\<not> has_text d"
    if d: "descendant_at g q d \<and> localname d = t \<and> doc_before q (ps ! k)" for q d
  proof -
    have "q \<in> set ps" unfolding ps(2) using d by blast
    then obtain m where m: "m < length ps" "ps ! m = q"
      by (auto simp: in_set_conv_nth)
    have "doc_before (ps ! m) (ps ! k)" using d m(2) by simp
    then have "m < k"
      using ps(1) m(1) k(1) len sorted_index_before [of ps m k] by simp
    moreover have "d = ?es ! m"
      using at [OF m(1)] m(2) d by (simp add: descendant_at_def)
    ultimately show ?thesis using k(4) by simp
  qed
  have all_before: "\<forall>q d. descendant_at g q d \<and> localname d = t \<and> doc_before q (ps ! k)
      \<longrightarrow> \<not> has_text d"
    using before by blast
  have "descendant_at g (ps ! k) e \<and> localname e = t
      \<and> x = strip (text_content e) \<and> x \<noteq> []"
    using e k(2,3) ek by simp
  then show ?thesis
    using all_before by (intro exI [of _ "ps ! k"] exI [of _ e]) blast
qed


lemmas tree_defs =
  xpath_descendants_named_def xpath_all_named_def xpath_all_grantlike_def leaf_def branch_def
  strip_def is_space_def code_point_def NAME_TAG_CANDIDATES_def AMOUNT_TAG_CANDIDATES_def

text \<open>
  C2. The field extractor returns the trimmed text content of the first candidate tag, in
  list order, that has a matching descendant element with non-empty text: an element at
  any depth below the group with that local name whose text content (its own text and
  that of its descendants), trimmed, is not empty. Within that tag it is the text of the
  first such element in document order. No earlier candidate has such an element,
  wherever the elements of later candidates stand in the document. It returns absent
  exactly when no candidate has one. In the first example \<open>Amount\<close> comes first in the
  document and \<open>Amt\<close>, the earlier candidate, wins; in the second the amount is nested
  one level down; in the third the name is the text of a child of the name element.
\<close>

theorem first_candidate_with_text_wins:
  "(first_text_for_tags g tags = None \<longleftrightarrow> (\<forall>t \<in> set tags. \<not> tag_has_text g t))
   \<and> (\<forall>x. first_text_for_tags g tags = Some x \<longrightarrow>
        (\<exists>i < length tags.
           (\<forall>j < i. \<not> tag_has_text g (tags ! j))
           \<and> (\<exists>p e. descendant_at g p e \<and> localname e = tags ! i
                 \<and> x = strip (text_content e) \<and> x \<noteq> []
                 \<and> (\<forall>q d. descendant_at g q d \<and> localname d = tags ! i \<and> doc_before q p
                       \<longrightarrow> \<not> has_text d))))
   \<and> first_text_for_tags priority_group AMOUNT_TAG_CANDIDATES = Some ''7''
   \<and> first_text_for_tags nested_amount_group AMOUNT_TAG_CANDIDATES = Some ''1''
   \<and> first_text_for_tags nested_name_group NAME_TAG_CANDIDATES = Some ''Acme''"
proof -
  have none: "first_text_for_tags g tags = None \<longleftrightarrow> (\<forall>t \<in> set tags. \<not> tag_has_text g t)"
    by (rule first_text_for_tags_None)
  have some: "\<exists>i < length tags.
           (\<forall>j < i. \<not> tag_has_text g (tags ! j))
           \<and> (\<exists>p e. descendant_at g p e \<and> localname e = tags ! i
                 \<and> x = strip (text_content e) \<and> x \<noteq> []
                 \<and> (\<forall>q d. descendant_at g q d \<and> localname d = tags ! i \<and> doc_before q p
                       \<longrightarrow> \<not> has_text d))"
    if fx: "first_text_for_tags g tags = Some x" for x
  proof -
    obtain i where i: "i < length tags"
        "first_text_in (xpath_descendants_named g (tags ! i)) = Some x"
        "\<forall>j < i. \<not> tag_has_text g (tags ! j)"
      using fx first_text_for_tags_Some by blast
    show ?thesis
      using i(1) i(3) first_text_in_descendants [OF i(2)] by blast
  qed
  have e1: "first_text_for_tags priority_group AMOUNT_TAG_CANDIDATES = Some ''7''"
    by (simp add: tree_defs priority_group_def)
  have e2: "first_text_for_tags nested_amount_group AMOUNT_TAG_CANDIDATES = Some ''1''"
    by (simp add: tree_defs nested_amount_group_def)
  have e3: "first_text_for_tags nested_name_group NAME_TAG_CANDIDATES = Some ''Acme''"
    by (simp add: tree_defs nested_name_group_def)
  show ?thesis
    using none some e1 e2 e3 by blast
qed

theorem first_candidate_with_text_wins_witness:
  "first_text_for_tags priority_group AMOUNT_TAG_CANDIDATES = Some ''7''
   \<and> (\<exists>i < length AMOUNT_TAG_CANDIDATES. \<exists>p e.
         descendant_at priority_group p e \<and> localname e = AMOUNT_TAG_CANDIDATES ! i
         \<and> ''7'' = strip (text_content e))
   \<and> descendant_at priority_group [2] (leaf ''Amt'' '' 7 '')
   \<and> descendant_at priority_group [0] (leaf ''Amount'' ''5'')
   \<and> has_text (leaf ''Amount'' ''5'')
   \<and> doc_before [0] [2]
   \<and> first_text_for_tags (branch ''Grp'' [leaf ''Amount'' '' '']) AMOUNT_TAG_CANDIDATES = None
   \<and> \<not> tag_has_text (branch ''Grp'' [leaf ''Amount'' '' '']) ''Amount''"
proof -
  let ?h = "branch ''Grp'' [leaf ''Amount'' '' '']"
  have v: "first_text_for_tags priority_group AMOUNT_TAG_CANDIDATES = Some ''7''"
    by (simp add: tree_defs priority_group_def)
  have n: "first_text_for_tags ?h AMOUNT_TAG_CANDIDATES = None"
    by (simp add: tree_defs)
  have m: "''Amount'' \<in> set AMOUNT_TAG_CANDIDATES"
    by (simp add: AMOUNT_TAG_CANDIDATES_def)
  have a: "\<exists>i < length AMOUNT_TAG_CANDIDATES. \<exists>p e.
         descendant_at priority_group p e \<and> localname e = AMOUNT_TAG_CANDIDATES ! i
         \<and> ''7'' = strip (text_content e)"
    using v first_candidate_with_text_wins [of priority_group AMOUNT_TAG_CANDIDATES] by blast
  have b: "\<not> tag_has_text ?h ''Amount''"
    using n m first_candidate_with_text_wins [of ?h AMOUNT_TAG_CANDIDATES] by blast
  have c: "descendant_at priority_group [2] (leaf ''Amt'' '' 7 '')"
    "descendant_at priority_group [0] (leaf ''Amount'' ''5'')"
    by (simp_all add: descendant_at_def priority_group_def branch_def leaf_def is_element_def)
  have d: "has_text (leaf ''Amount'' ''5'')"
    by (simp add: has_text_def leaf_def strip_def is_space_def code_point_def)
  have e: "doc_before [0] [2]" by simp
  show ?thesis
    using v n a b c d e by blast
qed

section \<open>Properties of the row loop\<close>

lemma starts_with_iff: "starts_with p s \<longleftrightarrow> (\<exists>b. s = p @ b)"
  by (induction p s rule: starts_with.induct) auto

lemma contains_iff: "contains sub s \<longleftrightarrow> (\<exists>a b. s = a @ sub @ b)"
proof (induction s)
  case Nil
  then show ?case by auto
next
  case (Cons c cs)
  have "(\<exists>a b. c # cs = a @ sub @ b) \<longleftrightarrow> (\<exists>b. c # cs = sub @ b) \<or> (\<exists>a b. cs = a @ sub @ b)"
  proof
    assume "\<exists>a b. c # cs = a @ sub @ b"
    then obtain a b where ab: "c # cs = a @ sub @ b" by blast
    show "(\<exists>b. c # cs = sub @ b) \<or> (\<exists>a b. cs = a @ sub @ b)"
    proof (cases a)
      case Nil
      then show ?thesis using ab by auto
    next
      case (Cons a0 a')
      then have "cs = a' @ sub @ b" using ab by simp
      then show ?thesis by blast
    qed
  next
    assume "(\<exists>b. c # cs = sub @ b) \<or> (\<exists>a b. cs = a @ sub @ b)"
    then show "\<exists>a b. c # cs = a @ sub @ b"
    proof
      assume "\<exists>b. c # cs = sub @ b"
      then obtain b where "c # cs = [] @ sub @ b" by auto
      then show ?thesis by blast
    next
      assume "\<exists>a b. cs = a @ sub @ b"
      then obtain a b where "c # cs = (c # a) @ sub @ b" by auto
      then show ?thesis by blast
    qed
  qed
  then show ?case using Cons.IH by (simp add: starts_with_iff)
qed

lemma lower_append: "lower (a @ b) = lower a @ lower b"
  by (simp add: lower_def translate_def)

lemma lower_eq_append:
  "lower s = x @ y \<longleftrightarrow> (\<exists>a b. s = a @ b \<and> lower a = x \<and> lower b = y)"
  unfolding lower_def translate_def by (auto simp: map_eq_append_conv)

text \<open>The test of the code is containment under case-insensitive comparison.\<close>

lemma contains_lower_iff:
  "contains sub (lower s) \<longleftrightarrow> (\<exists>a t b. s = a @ t @ b \<and> lower t = sub)"
proof
  assume "contains sub (lower s)"
  then obtain x y where "lower s = x @ sub @ y" using contains_iff by blast
  then obtain a r where ar: "s = a @ r" "lower a = x" "lower r = sub @ y"
    using lower_eq_append [of s x "sub @ y"] by blast
  then obtain t b where "r = t @ b" "lower t = sub"
    using lower_eq_append [of r sub y] by blast
  then show "\<exists>a t b. s = a @ t @ b \<and> lower t = sub" using ar by blast
next
  assume "\<exists>a t b. s = a @ t @ b \<and> lower t = sub"
  then obtain a t b where "s = a @ t @ b" "lower t = sub" by blast
  then have "lower s = lower a @ sub @ lower b" by (simp add: lower_append)
  then show "contains sub (lower s)" using contains_iff by blast
qed

lemma clean_amount_returns: "\<exists>r. clean_amount_to_float s = Inr r"
proof (cases s)
  case None
  then show ?thesis by (simp add: clean_amount_to_float_def)
next
  case (Some raw)
  then show ?thesis
    using clean_amount_well_formed [of raw] clean_amount_malformed [of raw]
    by (cases "well_formed_numeral (spec_steps raw)") auto
qed

lemma truthy_first_text:
  "truthy (first_text_for_tags g tags) \<longleftrightarrow> (\<exists>x. first_text_for_tags g tags = Some x)"
  using first_text_for_tags_nonempty [of g tags]
  by (cases "first_text_for_tags g tags") auto

text \<open>What one pass of the loop body appends for a group.\<close>

lemma group_rows_eq:
  "group_rows g =
     (case (first_text_for_tags g NAME_TAG_CANDIDATES,
            first_text_for_tags g AMOUNT_TAG_CANDIDATES) of
        (Some name, Some raw) \<Rightarrow>
          (case clean_amount_to_float (Some raw) of
             Inr (Some v) \<Rightarrow>
               if contains ''total'' (lower name) then []
               else [\<lparr>recipient = name, amount = v\<rparr>]
           | _ \<Rightarrow> [])
      | _ \<Rightarrow> [])"
proof -
  obtain r where r: "clean_amount_to_float (first_text_for_tags g AMOUNT_TAG_CANDIDATES) = Inr r"
    using clean_amount_returns by blast
  show ?thesis
    using r truthy_first_text [of g NAME_TAG_CANDIDATES]
      truthy_first_text [of g AMOUNT_TAG_CANDIDATES]
    by (auto simp: group_rows_def Let_def split: option.splits sum.splits)
qed

lemma grant_loop_rows:
  "\<exists>pr. grant_loop debug gs results printed
          = Inr (results @ concat (map group_rows gs), printed @ pr)
        \<and> (\<not> debug \<longrightarrow> pr = [])"
proof (induction gs arbitrary: results printed)
  case Nil
  then show ?case by simp
next
  case (Cons g gs)
  obtain r where r: "clean_amount_to_float (first_text_for_tags g AMOUNT_TAG_CANDIDATES) = Inr r"
    using clean_amount_returns by blast
  let ?name = "first_text_for_tags g NAME_TAG_CANDIDATES"
  let ?raw = "first_text_for_tags g AMOUNT_TAG_CANDIDATES"
  obtain msgs where step: "grant_loop debug (g # gs) results printed
          = grant_loop debug gs (results @ group_rows g) (printed @ msgs)"
      and quiet: "\<not> debug \<longrightarrow> msgs = []"
  proof (cases "truthy ?name \<and> truthy ?raw")
    case False
    then have "group_rows g = []"
      using truthy_first_text [of g NAME_TAG_CANDIDATES]
        truthy_first_text [of g AMOUNT_TAG_CANDIDATES]
      by (auto simp: group_rows_eq split: option.splits)
    then have "grant_loop debug (g # gs) results printed
          = grant_loop debug gs (results @ group_rows g)
              (printed @ (if debug then [DebugSkipping (localname g) (truthy ?name) (truthy ?raw)] else []))"
      using False by (auto simp: Let_def)
    then show ?thesis using that [of "if debug then [DebugSkipping (localname g) (truthy ?name) (truthy ?raw)] else []"]
      by simp
  next
    case True
    then obtain name raw where nr: "?name = Some name" "?raw = Some raw"
      using truthy_first_text by blast
    show ?thesis
    proof (cases r)
      case None
      then have "grant_loop debug (g # gs) results printed
          = grant_loop debug gs (results @ group_rows g)
              (printed @ (if debug then [DebugCannotParse raw name] else []))"
        using True r nr by (auto simp: Let_def group_rows_eq)
      then show ?thesis using that [of "if debug then [DebugCannotParse raw name] else []"]
        by simp
    next
      case (Some v)
      then have "grant_loop debug (g # gs) results printed
          = grant_loop debug gs (results @ group_rows g) (printed @ [])"
        using True r nr by (auto simp: Let_def group_rows_eq)
      then show ?thesis using that [of "[]"] by simp
    qed
  qed
  obtain pr where pr: "grant_loop debug gs (results @ group_rows g) (printed @ msgs)
          = Inr ((results @ group_rows g) @ concat (map group_rows gs), (printed @ msgs) @ pr)"
      and q2: "\<not> debug \<longrightarrow> pr = []"
    using Cons.IH by blast
  show ?case
    using step pr quiet q2 by (intro exI [of _ "msgs @ pr"]) simp
qed

lemma extract_grants_rows:
  assumes "fs path = Inr root_elem"
  shows "\<exists>pr. extract_grants fs path debug
            = Inr (concat (map group_rows (grant_nodes root_elem debug)), pr)
          \<and> (\<not> debug \<longrightarrow> pr = [])"
proof -
  let ?found = "grant_nodes root_elem debug"
  obtain pr where "grant_loop debug ?found [] (if debug then [DebugFound (length ?found)] else [])
      = Inr ([] @ concat (map group_rows ?found), (if debug then [DebugFound (length ?found)] else []) @ pr)"
      "\<not> debug \<longrightarrow> pr = []"
    using grant_loop_rows by blast
  then show ?thesis
    using assms by (auto simp: extract_grants_def Let_def)
qed

lemma group_rows_iff:
  "r \<in> set (group_rows g) \<longleftrightarrow>
     (\<exists>name raw v.
        first_text_for_tags g NAME_TAG_CANDIDATES = Some name
        \<and> first_text_for_tags g AMOUNT_TAG_CANDIDATES = Some raw
        \<and> clean_amount_to_float (Some raw) = Inr (Some v)
        \<and> \<not> contains ''total'' (lower name)
        \<and> r = \<lparr>recipient = name, amount = v\<rparr>)"
proof (cases "first_text_for_tags g NAME_TAG_CANDIDATES")
  case None
  then show ?thesis by (simp add: group_rows_eq)
next
  case name: (Some name)
  show ?thesis
  proof (cases "first_text_for_tags g AMOUNT_TAG_CANDIDATES")
    case None
    then show ?thesis by (simp add: group_rows_eq name)
  next
    case raw: (Some raw)
    obtain x where x: "clean_amount_to_float (Some raw) = Inr x"
      using clean_amount_returns by blast
    show ?thesis
      using x by (cases x) (auto simp: group_rows_eq name raw)
  qed
qed

lemma group_rows_length: "length (group_rows g) \<le> 1"
  by (auto simp: group_rows_eq split: option.splits sum.splits)

lemmas eval_defs =
  tree_defs normalizer_defs grant_nodes_def GRANT_GROUP_def extract_grants_def only_file_def
  lower_def translate_def ASCII_UPPER_def ASCII_LOWER_def LATIN1_UPPER_def LATIN1_LOWER_def
  grant_group_def sample_return_def totals_only_return_def fallback_return_def

lemma extract_grants_surviving:
  assumes "fs path = Inr root_elem"
  shows "\<exists>pr. extract_grants fs path debug = Inr (surviving_rows root_elem debug, pr)
          \<and> (\<not> debug \<longrightarrow> pr = [])"
  using assms extract_grants_rows [of fs path root_elem debug]
  by (simp add: surviving_rows_def)

lemma sample_rows:
  "extract_grants (only_file sample_return) ''in.xml'' False
     = Inr ([\<lparr>recipient = ''Acme Fund'', amount = Finite 500\<rparr>,
             \<lparr>recipient = ''Beta'', amount = Finite (- 250)\<rparr>], [])"
  by (simp add: eval_defs)

lemma sample_rows_debug:
  "extract_grants (only_file sample_return) ''in.xml'' True
     = Inr ([\<lparr>recipient = ''Acme Fund'', amount = Finite 500\<rparr>,
             \<lparr>recipient = ''Beta'', amount = Finite (- 250)\<rparr>],
            [DebugFound 5, DebugSkipping ''GrantOrContributionPdDurYrGrp'' False True,
             DebugCannotParse ''n/a'' ''Gamma''])"
  by (simp add: eval_defs)

section \<open>The claims about rows\<close>

text \<open>
  C3. A group whose extracted recipient text contains \<open>total\<close> under case-insensitive
  comparison (a part \<open>t\<close> of it has \<open>lower t = total\<close>, as in \<open>Total Grants\<close> or
  \<open>TOTAL\<close>) contributes no row, for every document and in both modes; the output is
  the concatenation of the groups' contributions, and no row of it has such a recipient.
\<close>

theorem total_groups_excluded:
  "(first_text_for_tags g NAME_TAG_CANDIDATES = Some (a @ t @ b) \<and> lower t = ''total''
      \<longrightarrow> group_rows g = [])
   \<and> (fs path = Inr root_elem \<longrightarrow>
        (\<exists>printed. extract_grants fs path debug
            = Inr (concat (map group_rows (grant_nodes root_elem debug)), printed))
        \<and> (\<forall>rows printed. extract_grants fs path debug = Inr (rows, printed) \<longrightarrow>
             (\<forall>r \<in> set rows. \<forall>a t b. recipient r = a @ t @ b \<longrightarrow> lower t \<noteq> ''total'')))"
proof (intro conjI impI allI ballI)
  assume "first_text_for_tags g NAME_TAG_CANDIDATES = Some (a @ t @ b) \<and> lower t = ''total''"
  then have n: "first_text_for_tags g NAME_TAG_CANDIDATES = Some (a @ t @ b)"
    and "contains ''total'' (lower (a @ t @ b))"
    using contains_lower_iff by blast+
  then show "group_rows g = []"
    by (auto simp: group_rows_eq split: option.splits sum.splits)
next
  assume "fs path = Inr root_elem"
  then show "\<exists>printed. extract_grants fs path debug
            = Inr (concat (map group_rows (grant_nodes root_elem debug)), printed)"
    using extract_grants_rows [of fs path root_elem debug] by blast
next
  fix rows printed r a t b
  assume fs: "fs path = Inr root_elem"
    and ex: "extract_grants fs path debug = Inr (rows, printed)"
    and r: "r \<in> set rows" and rec: "recipient r = a @ t @ b"
  have "rows = concat (map group_rows (grant_nodes root_elem debug))"
    using extract_grants_rows [of fs path root_elem debug] fs ex by auto
  then obtain g where "r \<in> set (group_rows g)" using r by auto
  then have "\<not> contains ''total'' (lower (recipient r))"
    using group_rows_iff by auto
  then show "lower t \<noteq> ''total''"
    using rec contains_lower_iff by auto
qed

theorem total_groups_excluded_witness:
  "first_text_for_tags (grant_group ''Total Grants'' ''750'') NAME_TAG_CANDIDATES
      = Some ([] @ ''Total'' @ '' Grants'')
   \<and> lower ''Total'' = ''total''
   \<and> group_rows (grant_group ''Total Grants'' ''750'') = []
   \<and> first_text_for_tags (grant_group ''SUBTOTAL'' ''9'') NAME_TAG_CANDIDATES
      = Some (''SUB'' @ ''TOTAL'' @ [])
   \<and> lower ''TOTAL'' = ''total''
   \<and> group_rows (grant_group ''SUBTOTAL'' ''9'') = []
   \<and> only_file sample_return ''in.xml'' = Inr sample_return
   \<and> extract_grants (only_file sample_return) ''in.xml'' False
        = Inr ([\<lparr>recipient = ''Acme Fund'', amount = Finite 500\<rparr>,
                \<lparr>recipient = ''Beta'', amount = Finite (- 250)\<rparr>], [])"
proof -
  have n1: "first_text_for_tags (grant_group ''Total Grants'' ''750'') NAME_TAG_CANDIDATES
      = Some ([] @ ''Total'' @ '' Grants'')"
    by (simp add: eval_defs)
  have l1: "lower ''Total'' = ''total''"
    by (simp add: eval_defs)
  have n2: "first_text_for_tags (grant_group ''SUBTOTAL'' ''9'') NAME_TAG_CANDIDATES
      = Some (''SUB'' @ ''TOTAL'' @ [])"
    by (simp add: eval_defs)
  have l2: "lower ''TOTAL'' = ''total''"
    by (simp add: eval_defs)
  have f: "only_file sample_return ''in.xml'' = Inr sample_return"
    by (simp add: only_file_def)
  have g1: "group_rows (grant_group ''Total Grants'' ''750'') = []"
    using n1 l1
      total_groups_excluded [of "grant_group ''Total Grants'' ''750''" "[]" "''Total''" "'' Grants''"]
    by blast
  have g2: "group_rows (grant_group ''SUBTOTAL'' ''9'') = []"
    using n2 l2
      total_groups_excluded [of "grant_group ''SUBTOTAL'' ''9''" "''SUB''" "''TOTAL''" "[]"]
    by blast
  show ?thesis
    using n1 l1 g1 n2 l2 g2 f sample_rows by blast
qed

text \<open>
  C4. A group yields a row exactly when the extraction of the recipient and of the
  amount both succeed, the normalization of the amount succeeds and the recipient does
  not contain \<open>total\<close> under case-insensitive comparison; the row holds that recipient and
  that amount, a group yields at most one row, and the output is the concatenation of
  the rows of the groups, each group treated on its own, in the order in which the
  groups are found, which is the order of their positions in the document.
\<close>

theorem rows_are_the_valid_groups_in_order:
  "(fs path = Inr root_elem \<longrightarrow>
      (\<exists>printed. extract_grants fs path debug
          = Inr (concat (map group_rows (grant_nodes root_elem debug)), printed)))
   \<and> (\<exists>ps. sorted_wrt doc_before ps
         \<and> map (node_at root_elem) ps = map Some (grant_nodes root_elem debug))
   \<and> length (group_rows g) \<le> 1
   \<and> (r \<in> set (group_rows g) \<longleftrightarrow>
        (\<exists>name raw v.
           first_text_for_tags g NAME_TAG_CANDIDATES = Some name
           \<and> first_text_for_tags g AMOUNT_TAG_CANDIDATES = Some raw
           \<and> clean_amount_to_float (Some raw) = Inr (Some v)
           \<and> \<not> (\<exists>a t b. name = a @ t @ b \<and> lower t = ''total'')
           \<and> r = \<lparr>recipient = name, amount = v\<rparr>))"
proof (intro conjI impI)
  assume "fs path = Inr root_elem"
  then show "\<exists>printed. extract_grants fs path debug
          = Inr (concat (map group_rows (grant_nodes root_elem debug)), printed)"
    using extract_grants_rows [of fs path root_elem debug] by blast
next
  show "\<exists>ps. sorted_wrt doc_before ps
         \<and> map (node_at root_elem) ps = map Some (grant_nodes root_elem debug)"
    by (rule grant_nodes_positions)
next
  show "length (group_rows g) \<le> 1" by (rule group_rows_length)
next
  show "r \<in> set (group_rows g) \<longleftrightarrow>
        (\<exists>name raw v.
           first_text_for_tags g NAME_TAG_CANDIDATES = Some name
           \<and> first_text_for_tags g AMOUNT_TAG_CANDIDATES = Some raw
           \<and> clean_amount_to_float (Some raw) = Inr (Some v)
           \<and> \<not> (\<exists>a t b. name = a @ t @ b \<and> lower t = ''total'')
           \<and> r = \<lparr>recipient = name, amount = v\<rparr>)"
    unfolding group_rows_iff contains_lower_iff ..
qed

theorem rows_are_the_valid_groups_in_order_witness:
  "only_file sample_return ''in.xml'' = Inr sample_return
   \<and> concat (map group_rows (grant_nodes sample_return False))
       = [\<lparr>recipient = ''Acme Fund'', amount = Finite 500\<rparr>,
          \<lparr>recipient = ''Beta'', amount = Finite (- 250)\<rparr>]
   \<and> \<lparr>recipient = ''Beta'', amount = Finite (- 250)\<rparr>
       \<in> set (group_rows (grant_group ''Beta'' ''(250)''))"
proof -
  have f: "only_file sample_return ''in.xml'' = Inr sample_return"
    by (simp add: only_file_def)
  have rows: "concat (map group_rows (grant_nodes sample_return False))
       = [\<lparr>recipient = ''Acme Fund'', amount = Finite 500\<rparr>,
          \<lparr>recipient = ''Beta'', amount = Finite (- 250)\<rparr>]"
    using f sample_rows
      rows_are_the_valid_groups_in_order [of "only_file sample_return" "''in.xml''" sample_return False]
    by auto
  have n: "first_text_for_tags (grant_group ''Beta'' ''(250)'') NAME_TAG_CANDIDATES = Some ''Beta''"
    by (simp add: eval_defs)
  have a: "first_text_for_tags (grant_group ''Beta'' ''(250)'') AMOUNT_TAG_CANDIDATES = Some ''(250)''"
    by (simp add: eval_defs)
  have v: "clean_amount_to_float (Some ''(250)'') = Inr (Some (Finite (- 250)))"
    by (simp add: normalizer_defs)
  have "\<not> contains ''total'' (lower ''Beta'')"
    by (simp add: eval_defs)
  then have t: "\<not> (\<exists>a t b. ''Beta'' = a @ t @ b \<and> lower t = ''total'')"
    using contains_lower_iff by blast
  have "\<lparr>recipient = ''Beta'', amount = Finite (- 250)\<rparr>
       \<in> set (group_rows (grant_group ''Beta'' ''(250)''))"
    using n a v t
      rows_are_the_valid_groups_in_order [of _ _ _ _ "grant_group ''Beta'' ''(250)''"
        "\<lparr>recipient = ''Beta'', amount = Finite (- 250)\<rparr>"]
    by blast
  then show ?thesis using f rows by blast
qed

section \<open>The command and the debug switch\<close>


lemma sample_surviving:
  "surviving_rows sample_return False
     = [\<lparr>recipient = ''Acme Fund'', amount = Finite 500\<rparr>,
        \<lparr>recipient = ''Beta'', amount = Finite (- 250)\<rparr>]"
  using sample_rows
    extract_grants_surviving [of "only_file sample_return" "''in.xml''" sample_return False]
  by (auto simp: only_file_def)












section \<open>Size of the amounts\<close>

lemma digit_val_le: "is_digit c \<Longrightarrow> digit_val c \<le> 9"
  by (auto simp: is_digit_def digit_val_def)

lemma foldl_digits_bound:
  "\<forall>c \<in> set ds. is_digit c \<Longrightarrow>
     foldl (\<lambda>a c. 10 * a + digit_val c) a ds + 1 \<le> (a + 1) * 10 ^ length ds"
proof (induction ds arbitrary: a)
  case Nil
  then show ?case by simp
next
  case (Cons d ds)
  have "foldl (\<lambda>a c. 10 * a + digit_val c) (10 * a + digit_val d) ds + 1
      \<le> (10 * a + digit_val d + 1) * 10 ^ length ds"
    using Cons by simp
  also have "\<dots> \<le> (10 * (a + 1)) * 10 ^ length ds"
    using digit_val_le [of d] Cons.prems by (intro mult_right_mono) auto
  finally show ?case by (simp add: algebra_simps)
qed

lemma digits_val_less: "\<forall>c \<in> set ds. is_digit c \<Longrightarrow> digits_val ds < 10 ^ length ds"
  using foldl_digits_bound [of ds 0] by (simp add: digits_val_def)

lemma decimal_value_bound:
  assumes "\<forall>c \<in> set ip. is_digit c" "\<forall>c \<in> set fp. is_digit c"
  shows "\<bar>decimal_value neg ip fp\<bar> < 10 ^ length ip"
proof -
  have i: "digits_val ip + 1 \<le> 10 ^ length ip"
    using digits_val_less [OF assms(1)] by simp
  then have i': "(of_nat (digits_val ip) :: rat) + 1 \<le> 10 ^ length ip"
    by (metis of_nat_1 of_nat_add of_nat_le_iff of_nat_numeral of_nat_power)
  have "(of_nat (digits_val fp) :: rat) < 10 ^ length fp"
    using digits_val_less [OF assms(2)]
    by (metis of_nat_less_iff of_nat_numeral of_nat_power)
  then have f: "(of_nat (digits_val fp) :: rat) / 10 ^ length fp < 1"
    by (simp add: divide_less_eq)
  define m :: rat where "m = of_nat (digits_val ip) + of_nat (digits_val fp) / 10 ^ length fp"
  have nn: "0 \<le> m" by (simp add: m_def)
  have lt: "m < 10 ^ length ip"
    unfolding m_def using i' f by linarith
  have "decimal_value neg ip fp = (if neg then - m else m)"
    by (simp add: decimal_value_def Let_def m_def)
  then have "\<bar>decimal_value neg ip fp\<bar> = m"
    using nn by simp
  then show ?thesis using lt by simp
qed

lemma small_is_finite:
  assumes "\<bar>q\<bar> < 10 ^ n" "n \<le> 308"
  shows "round_to_double q = Finite q"
proof -
  have "(10::rat) ^ n \<le> 10 ^ 308"
    using assms(2) by (intro power_increasing) auto
  also have "\<dots> < DBL_OVERFLOW"
    by (simp add: DBL_OVERFLOW_def)
  finally have "\<bar>q\<bar> < DBL_OVERFLOW" using assms(1) by simp
  then show ?thesis by (auto simp: round_to_double_def)
qed

lemma float_of_str_short_finite:
  assumes "float_of_str s = Inr x" "length s \<le> 308"
  shows "is_finite x"
proof -
  define neg where "neg = (s \<noteq> [] \<and> hd s = CHR ''-'')"
  define body where "body = (if neg then tl s else s)"
  define ip where "ip = takeWhile is_digit body"
  define rest where "rest = dropWhile is_digit body"
  have f: "float_of_str s = (case rest of
           [] \<Rightarrow> if ip = [] then Inl ValueError
                 else Inr (round_to_double (decimal_value neg ip []))
         | c # fp \<Rightarrow>
             if c = CHR ''.'' \<and> list_all is_digit fp \<and> (ip \<noteq> [] \<or> fp \<noteq> [])
             then Inr (round_to_double (decimal_value neg ip fp))
             else Inl ValueError)"
    by (simp only: float_of_str_def Let_def ip_def rest_def body_def neg_def)
  have ipd: "\<forall>c \<in> set ip. is_digit c"
    unfolding ip_def by (auto dest: set_takeWhileD)
  have "length body \<le> length s" by (simp add: body_def)
  moreover have "length ip \<le> length body"
    unfolding ip_def by (rule length_takeWhile_le)
  ultimately have len: "length ip \<le> 308" using assms(2) by simp
  obtain fp where x: "x = round_to_double (decimal_value neg ip fp)"
      and fpd: "\<forall>c \<in> set fp. is_digit c"
    using assms(1) unfolding f
    by (auto split: list.splits if_splits simp: list_all_iff)
  have "round_to_double (decimal_value neg ip fp) = Finite (decimal_value neg ip fp)"
    using decimal_value_bound [OF ipd fpd] len by (rule small_is_finite)
  then show ?thesis by (simp add: x is_finite_def)
qed

lemma strip_no_space: "\<forall>c \<in> set s. \<not> is_space c \<Longrightarrow> strip s = s"
proof -
  assume a: "\<forall>c \<in> set s. \<not> is_space c"
  have d: "dropWhile is_space xs = xs" if "\<forall>c \<in> set xs. \<not> is_space c" for xs
    using that by (cases xs) auto
  show ?thesis using a by (simp add: strip_def d)
qed

lemma nine_props:
  "is_digit CHR ''9''" "\<not> is_space CHR ''9''" "digit_val CHR ''9'' = 9"
  "numeric_char CHR ''9''" "paren_minus CHR ''9'' = CHR ''9''"
  by (simp_all add: is_digit_def is_space_def digit_val_def code_point_def numeric_char_def
      paren_minus_def)

lemma foldl_nines:
  "foldl (\<lambda>a c. 10 * a + digit_val c) a (replicate n CHR ''9'') + 1 = (a + 1) * 10 ^ n"
  by (induction n arbitrary: a) (simp_all add: nine_props algebra_simps)

lemma digits_val_nines: "digits_val (replicate n CHR ''9'') = 10 ^ n - 1"
  using foldl_nines [of 0 n] by (simp add: digits_val_def)

lemma digits_val_Nil: "digits_val [] = 0"
  by (simp add: digits_val_def)

lemma float_of_nines:
  "0 < n \<Longrightarrow> float_of_str (replicate n CHR ''9'')
     = Inr (round_to_double (of_nat (10 ^ n - 1)))"
proof -
  assume n: "0 < n"
  let ?s = "replicate n CHR ''9''"
  have hd: "hd ?s = CHR ''9''" "?s \<noteq> []" using n by simp_all
  have tw: "takeWhile is_digit ?s = ?s" "dropWhile is_digit ?s = []"
    by (simp_all add: nine_props)
  show ?thesis
    using hd n
    by (simp add: float_of_str_def Let_def tw decimal_value_def digits_val_nines nine_props
        digits_val_Nil)
qed

lemma clean_amount_nines:
  "0 < n \<Longrightarrow> clean_amount_to_float (Some (replicate n CHR ''9''))
     = Inr (Some (round_to_double (of_nat (10 ^ n - 1))))"
proof -
  assume n: "0 < n"
  have "spec_steps (replicate n CHR ''9'') = replicate n CHR ''9''"
    by (simp add: spec_steps_char_level nine_props)
  then show ?thesis
    using n by (simp add: clean_amount_to_float_def cleaned_spec_steps Let_def float_of_nines)
qed

lemma grant_group_fields:
  "first_text_for_tags (grant_group name amt) NAME_TAG_CANDIDATES
     = (if strip name = [] then None else Some (strip name))"
  "first_text_for_tags (grant_group name amt) AMOUNT_TAG_CANDIDATES
     = (if strip amt = [] then None else Some (strip amt))"
  by (simp_all add: grant_group_def branch_def leaf_def xpath_descendants_named_def
      NAME_TAG_CANDIDATES_def AMOUNT_TAG_CANDIDATES_def Let_def)

lemma overflow_group_rows:
  "group_rows (grant_group ''Acme Fund'' (replicate 309 CHR ''9''))
     = [\<lparr>recipient = ''Acme Fund'', amount = PosInf\<rparr>]"
proof -
  have s1: "strip ''Acme Fund'' = ''Acme Fund''"
    by (simp add: strip_def is_space_def code_point_def)
  have s2: "strip (replicate 309 CHR ''9'') = replicate 309 CHR ''9''"
    by (rule strip_no_space) (simp add: nine_props)
  have ne: "replicate 309 CHR ''9'' \<noteq> []" by simp
  have t: "\<not> contains ''total'' (lower ''Acme Fund'')"
    by (simp add: eval_defs)
  show ?thesis
    using ne t
    by (simp add: group_rows_eq grant_group_fields s1 s2 clean_amount_nines
        round_to_double_def DBL_OVERFLOW_def)
qed

lemma overflow_nodes:
  "grant_nodes overflow_return False = [grant_group ''Acme Fund'' (replicate 309 CHR ''9'')]"
  by (simp add: overflow_return_def grant_nodes_def xpath_all_named_def GRANT_GROUP_def
      branch_def leaf_def grant_group_def)

text \<open>
  C5, as stated, fails: an amount text of 309 nines is a well-formed numeral, and
  \<open>float\<close> gives positive infinity for it; the row is kept.
\<close>

theorem infinite_amount_counterexample:
  "extract_grants (only_file overflow_return) ''in.xml'' False
     = Inr ([\<lparr>recipient = ''Acme Fund'', amount = PosInf\<rparr>], [])
   \<and> \<not> is_finite PosInf"
proof -
  have "only_file overflow_return ''in.xml'' = Inr overflow_return"
    by (simp add: only_file_def)
  then have "extract_grants (only_file overflow_return) ''in.xml'' False
     = Inr (concat (map group_rows (grant_nodes overflow_return False)), [])"
    using extract_grants_rows [of "only_file overflow_return" "''in.xml''" overflow_return False]
    by auto
  then show ?thesis
    by (simp add: overflow_nodes overflow_group_rows is_finite_def)
qed

lemma clean_amount_Some_float:
  assumes "clean_amount_to_float (Some raw) = Inr (Some v)"
  shows "float_of_str (spec_steps raw) = Inr v"
proof (cases "float_of_str (spec_steps raw)")
  case (Inl e)
  then show ?thesis
    using assms float_of_str_cases [of "spec_steps raw"]
    by (auto simp: clean_amount_to_float_def cleaned_spec_steps Let_def split: if_splits)
next
  case (Inr x)
  then show ?thesis
    using assms
    by (auto simp: clean_amount_to_float_def cleaned_spec_steps Let_def split: if_splits)
qed

text \<open>
  C5, amended. Every row has a non-empty recipient and an amount that is a number (not
  NaN): the float read from the amount text of one of the groups. The amount is finite
  whenever what is left of that text after cleaning has at most 308 characters; a longer
  numeral can give an infinity, as in the counterexample.
\<close>

theorem rows_have_recipient_and_numeric_amount:
  "fs path = Inr root_elem \<longrightarrow>
     (\<exists>printed. extract_grants fs path debug = Inr (surviving_rows root_elem debug, printed))
     \<and> (\<forall>r \<in> set (surviving_rows root_elem debug).
          recipient r \<noteq> [] \<and> amount r \<noteq> NaN
          \<and> (\<exists>g \<in> set (grant_nodes root_elem debug). \<exists>raw.
                first_text_for_tags g AMOUNT_TAG_CANDIDATES = Some raw
                \<and> clean_amount_to_float (Some raw) = Inr (Some (amount r))
                \<and> (length (spec_steps raw) \<le> 308 \<longrightarrow> is_finite (amount r))))"
proof
  assume fs: "fs path = Inr root_elem"
  have ex: "\<exists>printed. extract_grants fs path debug = Inr (surviving_rows root_elem debug, printed)"
    using fs extract_grants_surviving [of fs path root_elem debug] by blast
  have rows: "recipient r \<noteq> [] \<and> amount r \<noteq> NaN
          \<and> (\<exists>g \<in> set (grant_nodes root_elem debug). \<exists>raw.
                first_text_for_tags g AMOUNT_TAG_CANDIDATES = Some raw
                \<and> clean_amount_to_float (Some raw) = Inr (Some (amount r))
                \<and> (length (spec_steps raw) \<le> 308 \<longrightarrow> is_finite (amount r)))"
    if r: "r \<in> set (surviving_rows root_elem debug)" for r
  proof -
    obtain g where g: "g \<in> set (grant_nodes root_elem debug)" "r \<in> set (group_rows g)"
      using r by (auto simp: surviving_rows_def)
    obtain name raw v where n: "first_text_for_tags g NAME_TAG_CANDIDATES = Some name"
        and a: "first_text_for_tags g AMOUNT_TAG_CANDIDATES = Some raw"
        and v: "clean_amount_to_float (Some raw) = Inr (Some v)"
        and req: "r = \<lparr>recipient = name, amount = v\<rparr>"
      using g(2) group_rows_iff [of r g] by blast
    have fl: "float_of_str (spec_steps raw) = Inr v"
      using v by (rule clean_amount_Some_float)
    have "name \<noteq> []" using n by (rule first_text_for_tags_nonempty)
    moreover have "v \<noteq> NaN" using fl float_of_str_cases [of "spec_steps raw"] by auto
    moreover have "length (spec_steps raw) \<le> 308 \<longrightarrow> is_finite v"
      using fl float_of_str_short_finite by blast
    ultimately show ?thesis using g(1) a v req by auto
  qed
  show "(\<exists>printed. extract_grants fs path debug = Inr (surviving_rows root_elem debug, printed))
     \<and> (\<forall>r \<in> set (surviving_rows root_elem debug).
          recipient r \<noteq> [] \<and> amount r \<noteq> NaN
          \<and> (\<exists>g \<in> set (grant_nodes root_elem debug). \<exists>raw.
                first_text_for_tags g AMOUNT_TAG_CANDIDATES = Some raw
                \<and> clean_amount_to_float (Some raw) = Inr (Some (amount r))
                \<and> (length (spec_steps raw) \<le> 308 \<longrightarrow> is_finite (amount r))))"
    using ex rows by blast
qed

theorem rows_have_recipient_and_numeric_amount_witness:
  "only_file sample_return ''in.xml'' = Inr sample_return
   \<and> surviving_rows sample_return False
       = [\<lparr>recipient = ''Acme Fund'', amount = Finite 500\<rparr>,
          \<lparr>recipient = ''Beta'', amount = Finite (- 250)\<rparr>]
   \<and> (\<exists>g \<in> set (grant_nodes sample_return False). \<exists>raw.
         first_text_for_tags g AMOUNT_TAG_CANDIDATES = Some raw
         \<and> clean_amount_to_float (Some raw) = Inr (Some (Finite (- 250))))
   \<and> is_finite (Finite (- 250))"
proof -
  have f: "only_file sample_return ''in.xml'' = Inr sample_return"
    by (simp add: only_file_def)
  have m: "\<lparr>recipient = ''Beta'', amount = Finite (- 250)\<rparr>
      \<in> set (surviving_rows sample_return False)"
    by (simp add: sample_surviving)
  have "\<exists>g \<in> set (grant_nodes sample_return False). \<exists>raw.
         first_text_for_tags g AMOUNT_TAG_CANDIDATES = Some raw
         \<and> clean_amount_to_float (Some raw) = Inr (Some (Finite (- 250)))"
    using f m
      rows_have_recipient_and_numeric_amount
        [of "only_file sample_return" "''in.xml''" sample_return False]
    by force
  then show ?thesis
    using f sample_surviving by (simp add: is_finite_def)
qed

end
